theory Spec2Isabelle
  imports Complex_Main "HOL-Library.AList" "HOL-Library.Option_ord"
begin

section \<open>Campaign Store rows\<close>

text \<open>
  The relational store holds the tables \<^verbatim>\<open>gmail_accounts\<close>, \<^verbatim>\<open>campaigns\<close> and
  \<^verbatim>\<open>engagement_logs\<close>. A table is the list of its rows. Identities and millisecond
  timestamps are JavaScript numbers holding integers, modelled as \<^typ>\<open>int\<close>; the
  column \<^verbatim>\<open>last_used_at\<close> (an ISO time string, nullable) is kept as the instant it
  denotes.
\<close>

datatype account_status = Active | NeedsReauth | Disabled

record gmail_account =
  account_id :: int
  email_address :: string
  oauth_credentials :: string
  account_status :: account_status
  last_used_at :: "int option"

section \<open>Account Allocator: \<^verbatim>\<open>PoolCoordinator\<close> (src/src/scheduler/index.ts)\<close>

subsection \<open>Number keys and their property names\<close>

text \<open>
  \<^verbatim>\<open>saveState\<close> stores each Map key under \<^verbatim>\<open>accountId.toString()\<close> and
  \<^verbatim>\<open>loadState\<close> reads it back with \<^verbatim>\<open>parseInt(k)\<close>. A key is an integer or
  \<^verbatim>\<open>NaN\<close> (what \<^verbatim>\<open>parseInt\<close> gives for a property name with no digits), written
  \<open>Some n\<close> and \<open>None\<close>. Integers print in decimal, as JavaScript prints every
  integer below \<open>10^21\<close> in magnitude.
\<close>

definition digit_char :: "nat \<Rightarrow> char" where
  "digit_char d = char_of (48 + d)"

function decimal :: "nat \<Rightarrow> string" where
  "decimal n = (if n < 10 then [digit_char n] else decimal (n div 10) @ [digit_char (n mod 10)])"
  by pat_completeness auto
termination
  by (relation "measure (\<lambda>n. n)") auto

declare decimal.simps [simp del]

definition toString :: "int option \<Rightarrow> string" where
  "toString k = (case k of
      None \<Rightarrow> ''NaN''
    | Some n \<Rightarrow> if n < 0 then CHR ''-'' # decimal (nat (- n)) else decimal (nat n))"

text \<open>
  \<^verbatim>\<open>parseInt(s)\<close> with no radix: skip leading white space, read a sign, read a
  \<^verbatim>\<open>0x\<close> prefix (radix 16, else radix 10), take the longest run of digits of the
  radix; no digit at all gives \<^verbatim>\<open>NaN\<close>.
\<close>

definition isWhiteSpace :: "char \<Rightarrow> bool" where
  "isWhiteSpace c = (of_char c \<in> {9::nat, 10, 11, 12, 13, 32})"

definition digitValue :: "char \<Rightarrow> nat option" where
  "digitValue c = (let v = (of_char c :: nat) in
     if 48 \<le> v \<and> v \<le> 57 then Some (v - 48)
     else if 97 \<le> v \<and> v \<le> 122 then Some (v - 87)
     else if 65 \<le> v \<and> v \<le> 90 then Some (v - 55)
     else None)"

definition isDigitOf :: "nat \<Rightarrow> char \<Rightarrow> bool" where
  "isDigitOf R c = (case digitValue c of None \<Rightarrow> False | Some v \<Rightarrow> v < R)"

definition digitsValue :: "nat \<Rightarrow> string \<Rightarrow> nat" where
  "digitsValue R Z = foldl (\<lambda>acc c. acc * R + the (digitValue c)) 0 Z"

definition parseDigits :: "nat \<Rightarrow> string \<Rightarrow> nat option" where
  "parseDigits R S = (let Z = takeWhile (isDigitOf R) S in
     if Z = [] then None else Some (digitsValue R Z))"

definition stripPrefix :: "string \<Rightarrow> nat \<times> string" where
  "stripPrefix S = (case S of
      c # d # rest \<Rightarrow> if c = CHR ''0'' \<and> (d = CHR ''x'' \<or> d = CHR ''X'') then (16, rest) else (10, S)
    | _ \<Rightarrow> (10, S))"

definition parseInt :: "string \<Rightarrow> int option" where
  "parseInt inputString = (let S = dropWhile isWhiteSpace inputString;
       (sign, S1) = (case S of
           c # rest \<Rightarrow> if c = CHR ''-'' then (- 1, rest) else if c = CHR ''+'' then (1, rest) else (1, S)
         | [] \<Rightarrow> (1::int, S));
       (R, S2) = stripPrefix S1
     in case parseDigits R S2 of None \<Rightarrow> None | Some m \<Rightarrow> Some (sign * int m))"

subsection \<open>State, hydration and persistence\<close>

text \<open>
  \<open>lastUsedAccounts\<close> is the in-memory \<^verbatim>\<open>Map<number, number>\<close>, an association list
  in insertion order; \<^verbatim>\<open>Map.set\<close> is \<open>AList.update\<close> (overwrite in place, or append)
  and \<^verbatim>\<open>Map.get\<close> is \<open>map_of\<close>. \<open>storage\<close> is the value the Durable Object storage
  holds under the key \<^verbatim>\<open>'lastUsedAccounts'\<close>: \<open>None\<close> while nothing was ever put.
\<close>

record pool_coordinator =
  lastUsedAccounts :: "(int option \<times> int) list"
  storage :: "(string \<times> int) list option"

definition constructor :: "(string \<times> int) list option \<Rightarrow> pool_coordinator" where
  "constructor stored = \<lparr>lastUsedAccounts = [], storage = stored\<rparr>"

definition loadState :: "pool_coordinator \<Rightarrow> pool_coordinator" where
  "loadState st = (case storage st of
      None \<Rightarrow> st
    | Some stored \<Rightarrow>
        st\<lparr>lastUsedAccounts := fold (\<lambda>(k, v) m. AList.update (parseInt k) v m) stored []\<rparr>)"

definition saveState :: "pool_coordinator \<Rightarrow> pool_coordinator" where
  "saveState st = st\<lparr>storage :=
     Some (fold (\<lambda>(accountId, timestamp) toStore. AList.update (toString accountId) timestamp toStore)
            (lastUsedAccounts st) [])\<rparr>"

subsection \<open>The store query\<close>

text \<open>
  \<^verbatim>\<open>SELECT id, last_used_at FROM gmail_accounts WHERE status = 'active'
  ORDER BY last_used_at ASC NULLS FIRST LIMIT ?\<close>, bound to \<open>poolSize * 2\<close>. The order
  on \<^typ>\<open>int option\<close> puts \<open>None\<close> first; rows with equal keys keep their table
  order. A negative \<^verbatim>\<open>LIMIT\<close> puts no bound on the number of rows (SQLite, which the
  store is).
\<close>

definition sqlLimit :: "int \<Rightarrow> 'a list \<Rightarrow> 'a list" where
  "sqlLimit n rows = (if n < 0 then rows else take (nat n) rows)"

definition activeAccountsQuery :: "gmail_account list \<Rightarrow> int \<Rightarrow> gmail_account list" where
  "activeAccountsQuery tbl limit =
     sqlLimit limit (sort_key last_used_at (filter (\<lambda>r. account_status r = Active) tbl))"

subsection \<open>\<^verbatim>\<open>selectAccounts\<close>\<close>

definition minTimeBetweenUses :: int where
  "minTimeBetweenUses = 3600000"

text \<open>The filter callback: \<^verbatim>\<open>!lastUsed\<close> holds for a missing entry and for the number 0.\<close>

definition available :: "int \<Rightarrow> (int option \<times> int) list \<Rightarrow> gmail_account \<Rightarrow> bool" where
  "available now m account = (case map_of m (Some (account_id account)) of
      None \<Rightarrow> True
    | Some lastUsed \<Rightarrow> if lastUsed = 0 then True else now - lastUsed \<ge> minTimeBetweenUses)"

text \<open>
  \<^verbatim>\<open>xs.slice(0, end)\<close>: a negative \<open>end\<close> counts from the end of the array.
\<close>

definition slice0 :: "int \<Rightarrow> 'a list \<Rightarrow> 'a list" where
  "slice0 end xs = (let len = int (length xs);
       final = (if end < 0 then max (len + end) 0 else min end len)
     in take (nat final) xs)"

datatype response = AccountIds "int list" | ErrorResponse string

text \<open>
  What the surroundings answer during one call: the parsed request body
  \<open>(poolSize, campaignId)\<close> or the error \<^verbatim>\<open>request.json()\<close> throws, the error of
  \<^verbatim>\<open>storage.get\<close> and of \<^verbatim>\<open>storage.put\<close> if they throw, the table the query runs on or
  the error it throws, and \<^verbatim>\<open>Date.now()\<close>.
\<close>

record reserve_env =
  body :: "string + int \<times> int"
  storage_get :: "string option"
  db :: "string + gmail_account list"
  date_now :: int
  storage_put :: "string option"

definition selectFrom :: "int \<Rightarrow> int \<Rightarrow> gmail_account list \<Rightarrow> (int option \<times> int) list \<Rightarrow> int list" where
  "selectFrom poolSize now allAccounts m =
     (let availableAccounts = filter (available now m) allAccounts;
          selectedAccounts = slice0 (min poolSize (int (length availableAccounts))) availableAccounts
      in map account_id selectedAccounts)"

definition selectAccounts :: "reserve_env \<Rightarrow> pool_coordinator \<Rightarrow> response \<times> pool_coordinator" where
  "selectAccounts env st = (case body env of
      Inl e \<Rightarrow> (ErrorResponse e, st)
    | Inr (poolSize, campaignId) \<Rightarrow>
       (case storage_get env of
          Some e \<Rightarrow> (ErrorResponse e, st)
        | None \<Rightarrow>
           (let st1 = loadState st in
            case db env of
              Inl e \<Rightarrow> (ErrorResponse e, st1)
            | Inr tbl \<Rightarrow>
               (let allAccounts = activeAccountsQuery tbl (poolSize * 2) in
                if allAccounts = [] then (AccountIds [], st1)
                else
                  (let now = date_now env;
                       accountIds = selectFrom poolSize now allAccounts (lastUsedAccounts st1);
                       st2 = st1\<lparr>lastUsedAccounts :=
                               fold (\<lambda>i m. AList.update (Some i) now m) accountIds (lastUsedAccounts st1)\<rparr>
                   in case storage_put env of
                        Some e \<Rightarrow> (ErrorResponse e, st2)
                      | None \<Rightarrow> (AccountIds accountIds, saveState st2))))))"

subsection \<open>Sequences of calls on one instance\<close>

definition returned :: "response \<Rightarrow> int set" where
  "returned r = (case r of AccountIds ids \<Rightarrow> set ids | ErrorResponse e \<Rightarrow> {})"

text \<open>
  The actor serialises its calls: \<open>reserveAll envs st\<close> runs one call per element of
  \<open>envs\<close>, each on the state the previous one left, and lists the responses.
\<close>

fun reserveAll :: "reserve_env list \<Rightarrow> pool_coordinator \<Rightarrow> response list" where
  "reserveAll [] st = []"
| "reserveAll (env # envs) st =
     (let (r, st') = selectAccounts env st in r # reserveAll envs st')"

text \<open>What the next call will see for a key once it has run \<^verbatim>\<open>loadState\<close>.\<close>

definition hydrated :: "pool_coordinator \<Rightarrow> int option \<Rightarrow> int option" where
  "hydrated st = map_of (lastUsedAccounts (loadState st))"

text \<open>
  An account may be handed out at time \<open>now\<close> when the view \<open>v\<close> of the state map has no
  entry for it, or a zero entry, or one at least \<open>minTimeBetweenUses\<close> old; it counts as
  reserved since \<open>B\<close> when its entry is a non-zero time not before \<open>B\<close>.
\<close>

definition eligible :: "int \<Rightarrow> (int option \<Rightarrow> int option) \<Rightarrow> int \<Rightarrow> bool" where
  "eligible now v a = (case v (Some a) of None \<Rightarrow> True | Some t \<Rightarrow> t = 0 \<or> minTimeBetweenUses \<le> now - t)"

definition reservedSince :: "int \<Rightarrow> (int option \<Rightarrow> int option) \<Rightarrow> int \<Rightarrow> bool" where
  "reservedSince B v a = (case v (Some a) of None \<Rightarrow> False | Some t \<Rightarrow> t \<noteq> 0 \<and> B \<le> t)"

text \<open>A process restart: a new instance over the storage the old one leaves behind.\<close>

definition restart :: "pool_coordinator \<Rightarrow> pool_coordinator" where
  "restart st = constructor (storage st)"

subsection \<open>The maintenance sweep: \<^verbatim>\<open>alarm\<close>\<close>

definition dayInMs :: int where
  "dayInMs = 86400000"

text \<open>
  \<^verbatim>\<open>alarm\<close> loads the state, deletes every entry older than a day and saves. It has no
  \<^verbatim>\<open>try\<close>: an error of \<^verbatim>\<open>storage.get\<close> leaves the state as it was, an error of
  \<^verbatim>\<open>storage.put\<close> leaves the entries deleted in memory only. Of its surroundings it reads
  the clock and the two storage outcomes.
\<close>

definition alarm :: "reserve_env \<Rightarrow> pool_coordinator \<Rightarrow> pool_coordinator" where
  "alarm env st = (case storage_get env of
      Some e \<Rightarrow> st
    | None \<Rightarrow>
       (let st1 = loadState st;
            now = date_now env;
            st2 = st1\<lparr>lastUsedAccounts :=
                    filter (\<lambda>(accountId, timestamp). \<not> now - timestamp > dayInMs) (lastUsedAccounts st1)\<rparr>
        in case storage_put env of
             Some e \<Rightarrow> st2
           | None \<Rightarrow> saveState st2))"

text \<open>Calls and sweeps of one instance, in the order the actor serves them.\<close>

datatype event = Reserve reserve_env | Sweep reserve_env

fun time_of :: "event \<Rightarrow> int" where
  "time_of (Reserve env) = date_now env"
| "time_of (Sweep env) = date_now env"

fun returnedBy :: "event \<Rightarrow> pool_coordinator \<Rightarrow> int set" where
  "returnedBy (Reserve env) st = returned (fst (selectAccounts env st))"
| "returnedBy (Sweep env) st = {}"

fun after :: "event \<Rightarrow> pool_coordinator \<Rightarrow> pool_coordinator" where
  "after (Reserve env) st = snd (selectAccounts env st)"
| "after (Sweep env) st = alarm env st"

fun history :: "event list \<Rightarrow> pool_coordinator \<Rightarrow> int set list" where
  "history [] st = []"
| "history (e # es) st = returnedBy e st # history es (after e st)"

text \<open>
  An account is blocked since \<open>B\<close> when it is reserved since \<open>B\<close> or when no later event
  comes before \<open>c\<close>, a time at least \<open>minTimeBetweenUses\<close> after \<open>B\<close>.
\<close>

definition blockedSince :: "int \<Rightarrow> int \<Rightarrow> pool_coordinator \<Rightarrow> int \<Rightarrow> bool" where
  "blockedSince B c st a = (reservedSince B (hydrated st) a \<or> B + minTimeBetweenUses \<le> c)"

text \<open>The memory holds nothing that the storage lacks entirely.\<close>

definition synced :: "pool_coordinator \<Rightarrow> bool" where
  "synced st = (storage st = None \<longrightarrow> lastUsedAccounts st = [])"

section \<open>Link filtering (src/src/utils/gmail.ts)\<close>

text \<open>
  Links are strings of bytes; \<^verbatim>\<open>toLowerCase\<close> maps the letters \<open>A\<close> to \<open>Z\<close> to
  \<open>a\<close> to \<open>z\<close> and leaves every other byte alone. \<^verbatim>\<open>String.prototype.includes\<close> is a
  substring test, \<^verbatim>\<open>Array.prototype.some\<close> is \<open>list_ex\<close>.
\<close>

definition toLowerChar :: "char \<Rightarrow> char" where
  "toLowerChar c = (let v = (of_char c :: nat) in if 65 \<le> v \<and> v \<le> 90 then char_of (v + 32) else c)"

definition toLowerCase :: "string \<Rightarrow> string" where
  "toLowerCase s = map toLowerChar s"

fun startsWith :: "string \<Rightarrow> string \<Rightarrow> bool" where
  "startsWith s [] = True"
| "startsWith [] (k # ks) = False"
| "startsWith (c # s) (k # ks) = (c = k \<and> startsWith s ks)"

fun includes_str :: "string \<Rightarrow> string \<Rightarrow> bool" where
  "includes_str [] keyword = (keyword = [])"
| "includes_str (c # s) keyword = (startsWith (c # s) keyword \<or> includes_str s keyword)"

definition unsubscribeKeywords :: "string list" where
  "unsubscribeKeywords = [''unsubscribe'', ''opt-out'', ''optout'', ''remove'', ''manage-preferences'']"

definition filterUnsubscribeLinks :: "string list \<Rightarrow> string list" where
  "filterUnsubscribeLinks links = filter (\<lambda>link.
     (let lowerLink = toLowerCase link
      in \<not> list_ex (\<lambda>keyword. includes_str lowerLink keyword) unsubscribeKeywords)) links"

text \<open>
  Two characters are the same up to case when they are equal or are the capital and the small
  form of one of the 26 letters. A link mentions a keyword when some stretch of it equals the
  keyword character by character up to case.
\<close>

definition letterPairs :: "(char \<times> char) list" where
  "letterPairs = zip ''ABCDEFGHIJKLMNOPQRSTUVWXYZ'' ''abcdefghijklmnopqrstuvwxyz''"

definition caseless :: "char \<Rightarrow> char \<Rightarrow> bool" where
  "caseless c d = (c = d \<or> (c, d) \<in> set letterPairs \<or> (d, c) \<in> set letterPairs)"

definition mentions :: "string \<Rightarrow> string \<Rightarrow> bool" where
  "mentions link keyword = (\<exists>pre mid post. link = pre @ mid @ post \<and> list_all2 caseless mid keyword)"

definition isUpper :: "char \<Rightarrow> bool" where
  "isUpper c = (65 \<le> (of_char c :: nat) \<and> (of_char c :: nat) \<le> 90)"

section \<open>The workers' surroundings: store, queues, provider\<close>

datatype campaign_status = CampaignActive | Paused | Completed

record engagement_settings =
  open_rate :: real
  click_rate :: real
  reply_rate :: real
  move_to_inbox_rate :: real

text \<open>
  A row of \<^verbatim>\<open>campaigns\<close>. The column \<^verbatim>\<open>engagement_settings\<close> is JSON text; the row holds
  what \<^verbatim>\<open>JSON.parse\<close> makes of it: the settings, or the error it throws.
\<close>

record campaign =
  campaign_row_id :: int
  sender_email :: string
  pool_size :: int
  engagement_settings :: "string + engagement_settings"
  campaign_status :: campaign_status

datatype action_type = Open | Click | Reply | MoveToInbox

record engagement_message =
  campaignId :: int
  gmailAccountId :: int
  senderEmail :: string
  actionType :: action_type

datatype log_status = Success | Failed

record engagement_log =
  campaign_id :: int
  gmail_account_id :: int
  action_type :: action_type
  target_email_subject :: "string option"
  status :: log_status
  error_message :: "string option"

record oauth =
  access_token :: string
  refresh_token :: string
  expiry_date :: int

text \<open>
  A mailbox message as \<^verbatim>\<open>getMessage\<close> returns it: headers, thread, and a payload of
  nested parts. \<open>body_data\<close> is the text the base64 body decodes to.
\<close>

datatype part = Part (mimeType: string) (body_data: string) (parts: "part list")

record full_message =
  headers :: "(string \<times> string) list"
  threadId :: string
  payload :: part

datatype settle = Ack | Retry

text \<open>Requests that leave the worker: credential handling, the mailbox provider, the allocator.\<close>

datatype request =
    Decrypt string
  | Refresh string
  | Encrypt oauth
  | ListMessages string string nat
  | GetMessage string string
  | ModifyMessage string string "string list" "string list"
  | SendReply string string string string string string
  | Head string
  | SelectAccounts int int

text \<open>
  The world a handler changes: the three tables, the messages published on the two
  channels (an engagement message with its \<^verbatim>\<open>delaySeconds\<close>), the \<^verbatim>\<open>ack()\<close> and
  \<^verbatim>\<open>retry()\<close> signals by message id, the requests issued, and how many store
  statements, queue sends and \<^verbatim>\<open>Math.random()\<close> calls were made so far.
\<close>

record world =
  gmail_accounts :: "gmail_account list"
  campaigns :: "campaign list"
  engagement_logs :: "engagement_log list"
  campaign_queue :: "int list"
  engagement_queue :: "(engagement_message \<times> nat) list"
  settled :: "(nat \<times> settle) list"
  requests :: "request list"
  statements :: nat
  sends :: nat
  draws :: nat

text \<open>
  What the surroundings answer: the error of the \<open>n\<close>-th store statement and of the
  \<open>n\<close>-th queue send if it throws, the \<open>n\<close>-th value of \<^verbatim>\<open>Math.random()\<close>,
  \<^verbatim>\<open>Date.now()\<close>, and the outcome of each request (\<open>Inl\<close> the error thrown).
  \<open>extractLinks\<close> is the regular-expression scan of src/src/utils/gmail.ts, kept as a
  parameter.
\<close>

record surroundings =
  store_error :: "nat \<Rightarrow> string option"
  send_error :: "nat \<Rightarrow> string option"
  math_random :: "nat \<Rightarrow> real"
  clock :: int
  decryptCredentials :: "string \<Rightarrow> string + oauth"
  refreshAccessToken :: "string \<Rightarrow> string + oauth"
  encryptCredentials :: "oauth \<Rightarrow> string + string"
  listMessages :: "string \<Rightarrow> string \<Rightarrow> string + string list"
  getMessage :: "string \<Rightarrow> string \<Rightarrow> string + full_message"
  modifyMessage :: "string \<Rightarrow> string \<Rightarrow> string list \<Rightarrow> string list \<Rightarrow> string + unit"
  sendReply :: "string \<Rightarrow> string \<Rightarrow> string \<Rightarrow> string \<Rightarrow> string \<Rightarrow> string \<Rightarrow> string + unit"
  fetch_head :: "string \<Rightarrow> string + unit"
  extractLinks :: "string \<Rightarrow> string list"
  select_accounts :: "int \<Rightarrow> int \<Rightarrow> string + response"

subsection \<open>Awaited steps that may throw\<close>

text \<open>
  A step runs on a world and returns a value or throws (\<open>Inl\<close> the error message); either
  way the world it leaves is kept. \<open>bind_io\<close> is sequencing, \<open>catch_io\<close> is
  \<^verbatim>\<open>try { ... } catch (error) { ... }\<close>.
\<close>

type_synonym 'a io = "world \<Rightarrow> (string + 'a) \<times> world"

definition ret :: "'a \<Rightarrow> 'a io" where
  "ret x w = (Inr x, w)"

definition throw :: "string \<Rightarrow> 'a io" where
  "throw e w = (Inl e, w)"

definition bind_io :: "'a io \<Rightarrow> ('a \<Rightarrow> 'b io) \<Rightarrow> 'b io" where
  "bind_io m f w = (case m w of (Inl e, w') \<Rightarrow> (Inl e, w') | (Inr x, w') \<Rightarrow> f x w')"

definition catch_io :: "'a io \<Rightarrow> (string \<Rightarrow> 'a io) \<Rightarrow> 'a io" where
  "catch_io m h w = (case m w of (Inl e, w') \<Rightarrow> h e w' | (Inr x, w') \<Rightarrow> (Inr x, w'))"

definition statement :: "surroundings \<Rightarrow> (world \<Rightarrow> 'a \<times> world) \<Rightarrow> 'a io" where
  "statement s run w = (let w1 = w\<lparr>statements := statements w + 1\<rparr> in
     case store_error s (statements w) of
       Some e \<Rightarrow> (Inl e, w1)
     | None \<Rightarrow> (case run w1 of (x, w2) \<Rightarrow> (Inr x, w2)))"

definition issue :: "request \<Rightarrow> string + 'a \<Rightarrow> 'a io" where
  "issue r outcome w = (outcome, w\<lparr>requests := requests w @ [r]\<rparr>)"

definition mathRandom :: "surroundings \<Rightarrow> real io" where
  "mathRandom s w = (Inr (math_random s (draws w)), w\<lparr>draws := draws w + 1\<rparr>)"

definition signal :: "nat \<Rightarrow> settle \<Rightarrow> unit io" where
  "signal mid x w = (Inr (), w\<lparr>settled := settled w @ [(mid, x)]\<rparr>)"

definition campaignSend :: "surroundings \<Rightarrow> int \<Rightarrow> unit io" where
  "campaignSend s cid w = (let w1 = w\<lparr>sends := sends w + 1\<rparr> in
     case send_error s (sends w) of
       Some e \<Rightarrow> (Inl e, w1)
     | None \<Rightarrow> (Inr (), w1\<lparr>campaign_queue := campaign_queue w1 @ [cid]\<rparr>))"

definition engagementSend :: "surroundings \<Rightarrow> engagement_message \<Rightarrow> nat \<Rightarrow> unit io" where
  "engagementSend s m delaySeconds w = (let w1 = w\<lparr>sends := sends w + 1\<rparr> in
     case send_error s (sends w) of
       Some e \<Rightarrow> (Inl e, w1)
     | None \<Rightarrow> (Inr (), w1\<lparr>engagement_queue := engagement_queue w1 @ [(m, delaySeconds)]\<rparr>))"

text \<open>
  \<^verbatim>\<open>xs[Math.floor(r * xs.length)]\<close>: \<open>None\<close> is \<^verbatim>\<open>undefined\<close>, met only when \<open>r\<close> is
  outside \<open>[0, 1)\<close>.
\<close>

definition pick :: "real \<Rightarrow> 'a list \<Rightarrow> 'a option" where
  "pick r xs = (let i = \<lfloor>r * real (length xs)\<rfloor> in
     if 0 \<le> i \<and> i < int (length xs) then Some (xs ! nat i) else None)"

section \<open>Scheduler: \<^verbatim>\<open>scheduled\<close> (src/src/scheduler/index.ts)\<close>

definition activeCampaigns :: "surroundings \<Rightarrow> campaign list io" where
  "activeCampaigns s = statement s (\<lambda>w. (filter (\<lambda>c. campaign_status c = CampaignActive) (campaigns w), w))"

fun enqueueCampaigns :: "surroundings \<Rightarrow> campaign list \<Rightarrow> unit io" where
  "enqueueCampaigns s [] = ret ()"
| "enqueueCampaigns s (campaign # rest) =
     bind_io (campaignSend s (campaign_row_id campaign)) (\<lambda>_. enqueueCampaigns s rest)"

text \<open>The handler's \<^verbatim>\<open>catch\<close> logs and rethrows, so it is not a step of its own.\<close>

definition scheduled :: "surroundings \<Rightarrow> unit io" where
  "scheduled s = bind_io (activeCampaigns s) (enqueueCampaigns s)"

section \<open>Campaign Expander: \<^verbatim>\<open>queue\<close> (src/src/consumer/index.ts)\<close>

definition findCampaign :: "surroundings \<Rightarrow> int \<Rightarrow> campaign option io" where
  "findCampaign s cid = statement s (\<lambda>w.
     (find (\<lambda>c. campaign_row_id c = cid \<and> campaign_status c = CampaignActive) (campaigns w), w))"

definition determineActions :: "surroundings \<Rightarrow> engagement_settings \<Rightarrow> action_type list io" where
  "determineActions s es =
     bind_io (mathRandom s) (\<lambda>r1.
     bind_io (mathRandom s) (\<lambda>r2.
     bind_io (mathRandom s) (\<lambda>r3.
     bind_io (mathRandom s) (\<lambda>r4.
       ret ((if r1 < move_to_inbox_rate es then [MoveToInbox] else [])
          @ (if r2 < open_rate es then [Open] else [])
          @ (if r3 < click_rate es then [Click] else [])
          @ (if r4 < reply_rate es then [Reply] else []))))))"

fun enqueueActions :: "surroundings \<Rightarrow> int \<Rightarrow> int \<Rightarrow> string \<Rightarrow> action_type list \<Rightarrow> unit io" where
  "enqueueActions s cid accountId sender [] = ret ()"
| "enqueueActions s cid accountId sender (a # actions) =
     bind_io (mathRandom s) (\<lambda>r.
     bind_io (engagementSend s
        \<lparr>campaignId = cid, gmailAccountId = accountId, senderEmail = sender, actionType = a\<rparr>
        (nat \<lfloor>r * 300\<rfloor>)) (\<lambda>_.
       enqueueActions s cid accountId sender actions))"

fun expandAccounts :: "surroundings \<Rightarrow> engagement_settings \<Rightarrow> int \<Rightarrow> string \<Rightarrow> int list \<Rightarrow> unit io" where
  "expandAccounts s es cid sender [] = ret ()"
| "expandAccounts s es cid sender (accountId # accountIds) =
     bind_io (determineActions s es) (\<lambda>actions.
     bind_io (enqueueActions s cid accountId sender actions) (\<lambda>_.
       expandAccounts s es cid sender accountIds))"

text \<open>
  One Campaign Channel message \<open>(mid, cid)\<close>. An error payload from the allocator has no
  \<^verbatim>\<open>accountIds\<close>, and reading its \<^verbatim>\<open>length\<close> throws.
\<close>

definition expandCampaign :: "surroundings \<Rightarrow> nat \<times> int \<Rightarrow> unit io" where
  "expandCampaign s m = (case m of (mid, cid) \<Rightarrow>
     bind_io (findCampaign s cid) (\<lambda>found. case found of
         None \<Rightarrow> signal mid Ack
       | Some campaign \<Rightarrow>
          (case engagement_settings campaign of
             Inl e \<Rightarrow> throw e
           | Inr es \<Rightarrow>
              bind_io (issue (SelectAccounts (pool_size campaign) cid)
                         (select_accounts s (pool_size campaign) cid)) (\<lambda>resp. case resp of
                  ErrorResponse e \<Rightarrow> throw ''TypeError''
                | AccountIds accountIds \<Rightarrow>
                    if accountIds = [] then signal mid Ack
                    else bind_io (expandAccounts s es cid (sender_email campaign) accountIds)
                           (\<lambda>_. signal mid Ack)))))"

definition processCampaign :: "surroundings \<Rightarrow> nat \<times> int \<Rightarrow> unit io" where
  "processCampaign s m = catch_io (expandCampaign s m) (\<lambda>e. signal (fst m) Retry)"

fun queueCampaigns :: "surroundings \<Rightarrow> (nat \<times> int) list \<Rightarrow> unit io" where
  "queueCampaigns s [] = ret ()"
| "queueCampaigns s (m # batch) = bind_io (processCampaign s m) (\<lambda>_. queueCampaigns s batch)"

section \<open>Engagement Executor: \<^verbatim>\<open>queue\<close> (src/src/engagement/index.ts)\<close>

text \<open>
  \<^verbatim>\<open>engagement_logs\<close> has two foreign keys, \<^verbatim>\<open>campaign_id\<close> to \<^verbatim>\<open>campaigns(id)\<close> and
  \<^verbatim>\<open>gmail_account_id\<close> to \<^verbatim>\<open>gmail_accounts(id)\<close>, and the store enforces them: an
  insert that names no existing campaign or no existing account is rejected and throws
  (with SQLite's message for the violation).
\<close>

definition referencesHold :: "world \<Rightarrow> int \<Rightarrow> int \<Rightarrow> bool" where
  "referencesHold w cid gid =
     (cid \<in> set (map campaign_row_id (campaigns w)) \<and> gid \<in> set (map account_id (gmail_accounts w)))"

definition logEngagement ::
  "surroundings \<Rightarrow> int \<Rightarrow> int \<Rightarrow> action_type \<Rightarrow> log_status \<Rightarrow> string option \<Rightarrow> string option \<Rightarrow> unit io" where
  "logEngagement s cid gid a st errorMessage subject w =
     (let w1 = w\<lparr>statements := statements w + 1\<rparr> in
      case store_error s (statements w) of
        Some e \<Rightarrow> (Inl e, w1)
      | None \<Rightarrow>
          if referencesHold w1 cid gid then
            (Inr (), w1\<lparr>engagement_logs := engagement_logs w1 @
               [\<lparr>campaign_id = cid, gmail_account_id = gid, action_type = a,
                 target_email_subject = subject, status = st, error_message = errorMessage\<rparr>]\<rparr>)
          else (Inl ''FOREIGN KEY constraint failed'', w1))"

fun findHtmlSub :: "part list \<Rightarrow> string option" where
  "findHtmlSub [] = None"
| "findHtmlSub (subPart # rest) =
     (if mimeType subPart = ''text/html'' then Some (body_data subPart) else findHtmlSub rest)"

fun findHtmlParts :: "part list \<Rightarrow> string option" where
  "findHtmlParts [] = None"
| "findHtmlParts (p # rest) =
     (if mimeType p = ''text/html'' then Some (body_data p)
      else case findHtmlSub (parts p) of
             Some html \<Rightarrow> Some html
           | None \<Rightarrow> findHtmlParts rest)"

definition getHtmlContent :: "full_message \<Rightarrow> string option" where
  "getHtmlContent message =
     (if mimeType (payload message) = ''text/html'' then Some (body_data (payload message))
      else findHtmlParts (parts (payload message)))"

text \<open>\<^verbatim>\<open>headers.find(h => h.name === 'Subject')?.value || 'No Subject'\<close>\<close>

definition subjectOf :: "full_message \<Rightarrow> string" where
  "subjectOf message = (case find (\<lambda>h. fst h = ''Subject'') (headers message) of
      None \<Rightarrow> ''No Subject''
    | Some h \<Rightarrow> if snd h = [] then ''No Subject'' else snd h)"

definition replies :: "string list" where
  "replies = [''Thank you for reaching out!'', ''Thanks for the information.'',
     ''Appreciate the update!'', ''Got it, thanks!'', ''Thanks for sharing this.'',
     ''This is helpful, thank you!'']"

definition generateReply :: "surroundings \<Rightarrow> string io" where
  "generateReply s = bind_io (mathRandom s) (\<lambda>r.
     ret (case pick r replies of None \<Rightarrow> ''undefined'' | Some reply \<Rightarrow> reply))"

definition clickLink ::
  "surroundings \<Rightarrow> int \<Rightarrow> int \<Rightarrow> string \<Rightarrow> full_message \<Rightarrow> unit io" where
  "clickLink s cid gid subject fullMessage =
     (case getHtmlContent fullMessage of
        None \<Rightarrow> logEngagement s cid gid Click Failed (Some ''No HTML content'') (Some subject)
      | Some htmlContent \<Rightarrow>
          if htmlContent = [] then
            logEngagement s cid gid Click Failed (Some ''No HTML content'') (Some subject)
          else
            (let links = extractLinks s htmlContent;
                 safeLinks = filterUnsubscribeLinks links
             in if safeLinks \<noteq> [] then
                  bind_io (mathRandom s) (\<lambda>r.
                    catch_io
                      (case pick r safeLinks of
                         None \<Rightarrow> throw ''TypeError''
                       | Some randomLink \<Rightarrow>
                           bind_io (issue (Head randomLink) (fetch_head s randomLink)) (\<lambda>_.
                             logEngagement s cid gid Click Success None (Some subject)))
                      (\<lambda>fetchError.
                         logEngagement s cid gid Click Failed (Some ''Link click failed'') (Some subject)))
                else logEngagement s cid gid Click Failed (Some ''No safe links found'') (Some subject)))"

definition performEngagementAction ::
  "surroundings \<Rightarrow> string \<Rightarrow> int \<Rightarrow> int \<Rightarrow> string \<Rightarrow> action_type \<Rightarrow> unit io" where
  "performEngagementAction s accessToken cid gid sender a =
     bind_io (issue (ListMessages accessToken sender 5) (listMessages s accessToken sender)) (\<lambda>messages.
       if messages = [] then
         logEngagement s cid gid a Failed (Some ''No messages found'') None
       else
         bind_io (mathRandom s) (\<lambda>r. case pick r messages of
             None \<Rightarrow> throw ''TypeError''
           | Some messageId \<Rightarrow>
               bind_io (issue (GetMessage accessToken messageId) (getMessage s accessToken messageId))
                 (\<lambda>fullMessage.
                   (let subject = subjectOf fullMessage in
                    case a of
                      MoveToInbox \<Rightarrow>
                        bind_io (issue (ModifyMessage accessToken messageId [''INBOX'']
                                    [''SPAM'', ''CATEGORY_PROMOTIONS'', ''CATEGORY_UPDATES''])
                                  (modifyMessage s accessToken messageId [''INBOX'']
                                    [''SPAM'', ''CATEGORY_PROMOTIONS'', ''CATEGORY_UPDATES''])) (\<lambda>_.
                          logEngagement s cid gid a Success None (Some subject))
                    | Open \<Rightarrow>
                        bind_io (issue (ModifyMessage accessToken messageId [] [''UNREAD''])
                                  (modifyMessage s accessToken messageId [] [''UNREAD''])) (\<lambda>_.
                          logEngagement s cid gid a Success None (Some subject))
                    | Click \<Rightarrow> clickLink s cid gid subject fullMessage
                    | Reply \<Rightarrow>
                        bind_io (generateReply s) (\<lambda>replyBody.
                        bind_io (issue (SendReply accessToken sender subject replyBody
                                    (threadId fullMessage) messageId)
                                  (sendReply s accessToken sender subject replyBody
                                    (threadId fullMessage) messageId)) (\<lambda>_.
                          logEngagement s cid gid a Success None (Some subject)))))))"

definition findAccount :: "surroundings \<Rightarrow> int \<Rightarrow> gmail_account option io" where
  "findAccount s gid = statement s (\<lambda>w.
     (find (\<lambda>r. account_id r = gid \<and> account_status r = Active) (gmail_accounts w), w))"

definition updateCredentials :: "surroundings \<Rightarrow> int \<Rightarrow> string \<Rightarrow> unit io" where
  "updateCredentials s gid encryptedCreds = statement s (\<lambda>w.
     ((), w\<lparr>gmail_accounts := map (\<lambda>r. if account_id r = gid
                 then r\<lparr>oauth_credentials := encryptedCreds\<rparr> else r) (gmail_accounts w)\<rparr>))"

definition updateLastUsed :: "surroundings \<Rightarrow> int \<Rightarrow> unit io" where
  "updateLastUsed s gid = statement s (\<lambda>w.
     ((), w\<lparr>gmail_accounts := map (\<lambda>r. if account_id r = gid
                 then r\<lparr>last_used_at := Some (clock s)\<rparr> else r) (gmail_accounts w)\<rparr>))"

text \<open>Decrypt the credentials and refresh them when they have expired.\<close>

definition obtainCredentials :: "surroundings \<Rightarrow> gmail_account \<Rightarrow> int \<Rightarrow> oauth io" where
  "obtainCredentials s account gid =
     bind_io (issue (Decrypt (oauth_credentials account))
                (decryptCredentials s (oauth_credentials account))) (\<lambda>credentials.
       if expiry_date credentials < clock s then
         bind_io (issue (Refresh (refresh_token credentials))
                    (refreshAccessToken s (refresh_token credentials))) (\<lambda>refreshed.
         bind_io (issue (Encrypt refreshed) (encryptCredentials s refreshed)) (\<lambda>encryptedCreds.
         bind_io (updateCredentials s gid encryptedCreds) (\<lambda>_.
           ret refreshed)))
       else ret credentials)"

text \<open>The body of the \<^verbatim>\<open>try\<close> block for one Engagement Channel message \<open>(mid, body)\<close>.\<close>

definition attempt :: "surroundings \<Rightarrow> nat \<times> engagement_message \<Rightarrow> unit io" where
  "attempt s m = (case m of (mid, b) \<Rightarrow>
     bind_io (findAccount s (gmailAccountId b)) (\<lambda>account. case account of
         None \<Rightarrow>
           bind_io (logEngagement s (campaignId b) (gmailAccountId b) (actionType b) Failed
                      (Some ''Account not available'') None) (\<lambda>_.
             signal mid Ack)
       | Some acc \<Rightarrow>
           bind_io (obtainCredentials s acc (gmailAccountId b)) (\<lambda>credentials.
           bind_io (performEngagementAction s (access_token credentials) (campaignId b)
                      (gmailAccountId b) (senderEmail b) (actionType b)) (\<lambda>_.
           bind_io (updateLastUsed s (gmailAccountId b)) (\<lambda>_.
             signal mid Ack)))))"

definition processEngagement :: "surroundings \<Rightarrow> nat \<times> engagement_message \<Rightarrow> unit io" where
  "processEngagement s m = catch_io (attempt s m) (\<lambda>error.
     bind_io (logEngagement s (campaignId (snd m)) (gmailAccountId (snd m)) (actionType (snd m))
                Failed (Some error) None) (\<lambda>_.
       signal (fst m) Retry))"

fun queueEngagements :: "surroundings \<Rightarrow> (nat \<times> engagement_message) list \<Rightarrow> unit io" where
  "queueEngagements s [] = ret ()"
| "queueEngagements s (m # batch) = bind_io (processEngagement s m) (\<lambda>_. queueEngagements s batch)"

section \<open>Notions used in the statements\<close>

text \<open>The settings of the sampling scenario, and the task it yields for an account.\<close>

definition openOnly :: engagement_settings where
  "openOnly = \<lparr>open_rate = 1, click_rate = 0, reply_rate = 0, move_to_inbox_rate = 0\<rparr>"

definition openTask :: "int \<Rightarrow> string \<Rightarrow> int \<Rightarrow> engagement_message" where
  "openTask cid sender accountId =
     \<lparr>campaignId = cid, gmailAccountId = accountId, senderEmail = sender, actionType = Open\<rparr>"





text \<open>The store takes an insert into \<^verbatim>\<open>engagement_logs\<close> for this campaign and account.\<close>

definition insertAccepted :: "surroundings \<Rightarrow> world \<Rightarrow> int \<Rightarrow> int \<Rightarrow> bool" where
  "insertAccepted s w cid gid = (store_error s (statements w) = None \<and> referencesHold w cid gid)"

text \<open>
  The identities of the campaigns with status \<^verbatim>\<open>active\<close>, in the order of the table.
\<close>

definition activeIds :: "world \<Rightarrow> int list" where
  "activeIds w = map campaign_row_id (filter (\<lambda>c. campaign_status c = CampaignActive) (campaigns w))"

text \<open>The rows \<^verbatim>\<open>logEngagement\<close> inserts for a failed task.\<close>

definition failedRow :: "engagement_message \<Rightarrow> string \<Rightarrow> engagement_log" where
  "failedRow b reason = \<lparr>campaign_id = campaignId b, gmail_account_id = gmailAccountId b,
     action_type = actionType b, target_email_subject = None, status = Failed,
     error_message = Some reason\<rparr>"

definition clickFailure :: "int \<Rightarrow> int \<Rightarrow> string \<Rightarrow> string \<Rightarrow> engagement_log" where
  "clickFailure cid gid subject reason = \<lparr>campaign_id = cid, gmail_account_id = gid,
     action_type = Click, target_email_subject = Some subject, status = Failed,
     error_message = Some reason\<rparr>"


section \<open>Sample data\<close>

definition pool3 :: "gmail_account list" where
  "pool3 = [\<lparr>account_id = 1, email_address = ''a@x'', oauth_credentials = ''k1'', account_status = Active, last_used_at = None\<rparr>,
            \<lparr>account_id = 2, email_address = ''b@x'', oauth_credentials = ''k2'', account_status = Active, last_used_at = None\<rparr>,
            \<lparr>account_id = 3, email_address = ''c@x'', oauth_credentials = ''k3'', account_status = Active, last_used_at = None\<rparr>]"

definition account7 :: gmail_account where
  "account7 = \<lparr>account_id = 7, email_address = ''seven@x'', oauth_credentials = ''k7'',
     account_status = Active, last_used_at = None\<rparr>"

definition call :: "int \<Rightarrow> int \<Rightarrow> reserve_env" where
  "call poolSize now = \<lparr>body = Inr (poolSize, 1), storage_get = None, db = Inr [account7],
     date_now = now, storage_put = None\<rparr>"

definition campaign_of :: "int \<Rightarrow> campaign_status \<Rightarrow> campaign" where
  "campaign_of i st = \<lparr>campaign_row_id = i, sender_email = ''sender@example.com'', pool_size = 2,
     engagement_settings = Inr \<lparr>open_rate = 1, click_rate = 0, reply_rate = 0, move_to_inbox_rate = 0\<rparr>,
     campaign_status = st\<rparr>"

definition quiet :: surroundings where
  "quiet = \<lparr>store_error = (\<lambda>n. None), send_error = (\<lambda>n. None), math_random = (\<lambda>n. 1 / 2),
     clock = 1700000000000,
     decryptCredentials = (\<lambda>blob. Inr \<lparr>access_token = ''token'', refresh_token = ''refresh'', expiry_date = 1800000000000\<rparr>),
     refreshAccessToken = (\<lambda>t. Inl ''Failed to refresh token''),
     encryptCredentials = (\<lambda>c. Inr ''blob''),
     listMessages = (\<lambda>t sender. Inr []),
     getMessage = (\<lambda>t i. Inl ''Failed to get message''),
     modifyMessage = (\<lambda>t i add remove. Inr ()),
     sendReply = (\<lambda>t to subject b th i. Inr ()),
     fetch_head = (\<lambda>l. Inr ()),
     extractLinks = (\<lambda>h. []),
     select_accounts = (\<lambda>p c. Inr (AccountIds []))\<rparr>"

definition world0 :: world where
  "world0 = \<lparr>gmail_accounts = [], campaigns = [campaign_of 1 CampaignActive, campaign_of 2 Paused,
       campaign_of 3 CampaignActive, campaign_of 4 CampaignActive],
     engagement_logs = [], campaign_queue = [], engagement_queue = [], settled = [], requests = [],
     statements = 0, sends = 0, draws = 0\<rparr>"

definition account9 :: gmail_account where
  "account9 = \<lparr>account_id = 9, email_address = ''nine@x'', oauth_credentials = ''k9'',
     account_status = Disabled, last_used_at = None\<rparr>"

definition poolWorld :: world where
  "poolWorld = \<lparr>gmail_accounts = [account7, account9], campaigns = [campaign_of 1 CampaignActive],
     engagement_logs = [], campaign_queue = [], engagement_queue = [], settled = [], requests = [],
     statements = 0, sends = 0, draws = 0\<rparr>"

definition taskFor :: "int \<Rightarrow> action_type \<Rightarrow> engagement_message" where
  "taskFor gid a = \<lparr>campaignId = 1, gmailAccountId = gid, senderEmail = ''sender@example.com'',
     actionType = a\<rparr>"

definition plainMessage :: full_message where
  "plainMessage = \<lparr>headers = [(''From'', ''sender@example.com''), (''Subject'', ''Hello'')],
     threadId = ''t1'', payload = Part ''text/plain'' ''hi'' []\<rparr>"

definition htmlMessage :: full_message where
  "htmlMessage = \<lparr>headers = [(''Subject'', ''Hello'')], threadId = ''t1'',
     payload = Part ''multipart/alternative'' ''''
       [Part ''text/plain'' ''hi'' [], Part ''text/html'' ''<a href=\"https://x/view\">view</a>'' []]\<rparr>"

definition inbox :: "full_message \<Rightarrow> surroundings" where
  "inbox m = quiet\<lparr>listMessages := (\<lambda>t sender. Inr [''m1'']), getMessage := (\<lambda>t i. Inr m)\<rparr>"

definition reserving :: surroundings where
  "reserving = quiet\<lparr>select_accounts := (\<lambda>p c. Inr (AccountIds [11, 12]))\<rparr>"

definition outage :: surroundings where
  "outage = quiet\<lparr>listMessages := (\<lambda>t sender. Inl ''Failed to list messages: Service Unavailable'')\<rparr>"

definition bumped :: "world \<Rightarrow> world" where
  "bumped w = w\<lparr>gmail_accounts := [account7\<lparr>last_used_at := Some 1700000000000\<rparr>, account9],
     settled := [(0, Ack)]\<rparr>"


section \<open>Account Allocator: verification\<close>

lemma digitValue_digit_char: "d < 10 \<Longrightarrow> digitValue (digit_char d) = Some d"
  by (simp add: digitValue_def digit_char_def Let_def)

lemma isDigitOf_digit_char: "d < 10 \<Longrightarrow> isDigitOf 10 (digit_char d)"
  by (simp add: isDigitOf_def digitValue_digit_char)

lemma of_char_digit_char: "d < 10 \<Longrightarrow> (of_char (digit_char d) :: nat) = 48 + d"
  by (simp add: digit_char_def)

lemma digit_char_not_special:
  "d < 10 \<Longrightarrow> \<not> isWhiteSpace (digit_char d) \<and> digit_char d \<noteq> CHR ''-'' \<and> digit_char d \<noteq> CHR ''+''
     \<and> digit_char d \<noteq> CHR ''x'' \<and> digit_char d \<noteq> CHR ''X''"
  using of_char_digit_char [of d] by (auto simp: isWhiteSpace_def)

lemma decimal_digits: "c \<in> set (decimal n) \<Longrightarrow> \<exists>d<10. c = digit_char d"
proof (induction n arbitrary: c rule: decimal.induct)
  case (1 n)
  show ?case
  proof (cases "n < 10")
    case True
    with "1.prems" show ?thesis by (subst (asm) decimal.simps) auto
  next
    case False
    with "1.prems" have "c \<in> set (decimal (n div 10)) \<or> c = digit_char (n mod 10)"
      by (subst (asm) decimal.simps) auto
    then show ?thesis
    proof
      assume "c \<in> set (decimal (n div 10))"
      with False "1.IH" show ?thesis by blast
    next
      assume "c = digit_char (n mod 10)"
      then show ?thesis by (intro exI [of _ "n mod 10"]) simp
    qed
  qed
qed

lemma decimal_nonempty: "decimal n \<noteq> []"
  by (subst decimal.simps) simp

lemma digitsValue_snoc: "digitsValue R (Z @ [c]) = digitsValue R Z * R + the (digitValue c)"
  by (simp add: digitsValue_def)

lemma digitsValue_decimal: "digitsValue 10 (decimal n) = n"
proof (induction n rule: decimal.induct)
  case (1 n)
  show ?case
  proof (cases "n < 10")
    case True
    then show ?thesis
      by (subst decimal.simps) (simp add: digitsValue_def digitValue_digit_char)
  next
    case False
    with "1.IH" have "digitsValue 10 (decimal (n div 10)) = n div 10" by simp
    with False show ?thesis
      by (subst decimal.simps) (simp add: digitsValue_snoc digitValue_digit_char)
  qed
qed


lemma takeWhile_decimal: "takeWhile (isDigitOf 10) (decimal n) = decimal n"
proof -
  have "\<forall>c \<in> set (decimal n). isDigitOf 10 c"
    using decimal_digits isDigitOf_digit_char by blast
  then show ?thesis by (simp only: takeWhile_eq_all_conv)
qed

lemma parseDigits_decimal: "parseDigits 10 (decimal n) = Some n"
  by (simp add: parseDigits_def takeWhile_decimal decimal_nonempty digitsValue_decimal)

lemma decimal_hd: "\<exists>d<10. \<exists>rest. decimal n = digit_char d # rest"
proof -
  obtain c rest where eq: "decimal n = c # rest"
    using decimal_nonempty [of n] by (cases "decimal n") auto
  then have "c \<in> set (decimal n)" by simp
  then obtain d where "d < 10" "c = digit_char d" using decimal_digits by blast
  with eq show ?thesis by blast
qed

lemma not_digit_x: "\<not> isDigitOf 10 (CHR ''x'')" "\<not> isDigitOf 10 (CHR ''X'')"
  by (simp_all add: isDigitOf_def digitValue_def)

lemma decimal_all_digits: "\<forall>c \<in> set (decimal n). isDigitOf 10 c"
  using decimal_digits isDigitOf_digit_char by blast

lemma stripPrefix_digits:
  assumes "\<forall>c \<in> set S. isDigitOf 10 c"
  shows "stripPrefix S = (10, S)"
proof (cases S)
  case Nil
  then show ?thesis by (simp add: stripPrefix_def)
next
  case outer: (Cons c ds)
  show ?thesis
  proof (cases ds)
    case Nil
    with outer show ?thesis by (simp add: stripPrefix_def)
  next
    case (Cons d rest)
    with outer assms have "isDigitOf 10 d" by simp
    then have "d \<noteq> CHR ''x'' \<and> d \<noteq> CHR ''X''" using not_digit_x by blast
    with Cons outer show ?thesis by (simp add: stripPrefix_def)
  qed
qed

lemma stripPrefix_decimal: "stripPrefix (decimal n) = (10, decimal n)"
  by (rule stripPrefix_digits [OF decimal_all_digits])

lemma parseInt_decimal: "parseInt (decimal n) = Some (int n)"
proof -
  obtain d rest where d: "d < 10" and eq: "decimal n = digit_char d # rest"
    using decimal_hd by blast
  from d have ns: "\<not> isWhiteSpace (digit_char d)" "digit_char d \<noteq> CHR ''-''" "digit_char d \<noteq> CHR ''+''"
    using digit_char_not_special by blast+
  have "dropWhile isWhiteSpace (decimal n) = decimal n"
    using ns eq by simp
  moreover have "(case decimal n of [] \<Rightarrow> (1::int, decimal n) | c # rest \<Rightarrow>
       if c = CHR ''-'' then (- 1, rest) else if c = CHR ''+'' then (1, rest) else (1, decimal n)) = (1, decimal n)"
    using ns eq by simp
  ultimately show ?thesis
    by (simp add: parseInt_def stripPrefix_decimal parseDigits_decimal)
qed

lemma parseInt_minus_decimal: "parseInt (CHR ''-'' # decimal n) = Some (- int n)"
  by (simp add: parseInt_def isWhiteSpace_def stripPrefix_decimal parseDigits_decimal)

lemma parseInt_NaN: "parseInt ''NaN'' = None"
  by (simp add: parseInt_def isWhiteSpace_def stripPrefix_def parseDigits_def isDigitOf_def digitValue_def)

lemma parseInt_toString: "parseInt (toString k) = k"
proof (cases k)
  case None
  then show ?thesis by (simp add: toString_def parseInt_NaN)
next
  case (Some n)
  then show ?thesis
    by (simp add: toString_def parseInt_decimal parseInt_minus_decimal)
qed

lemma toString_inj: "toString j = toString k \<Longrightarrow> j = k"
  by (metis parseInt_toString)

lemma update_fresh: "k \<notin> fst ` set al \<Longrightarrow> AList.update k v al = al @ [(k, v)]"
  by (induction al) auto

lemma fold_update_fresh:
  assumes "distinct (map (\<lambda>p. f (fst p)) ys)" and "(\<lambda>p. f (fst p)) ` set ys \<inter> fst ` set acc = {}"
  shows "fold (\<lambda>(k, v) m. AList.update (f k) v m) ys acc = acc @ map (\<lambda>(k, v). (f k, v)) ys"
  using assms
proof (induction ys arbitrary: acc)
  case Nil
  then show ?case by simp
next
  case (Cons y ys)
  obtain k v where y: "y = (k, v)" by (cases y)
  from Cons.prems y have fresh: "f k \<notin> fst ` set acc" by auto
  have step: "AList.update (f k) v acc = acc @ [(f k, v)]"
    by (rule update_fresh [OF fresh])
  have d: "distinct (map (\<lambda>p. f (fst p)) ys)" using Cons.prems by simp
  have disj: "(\<lambda>p. f (fst p)) ` set ys \<inter> fst ` set (acc @ [(f k, v)]) = {}"
    using Cons.prems y by auto
  show ?case
    using Cons.IH [OF d disj] y step by simp
qed

lemma saveState_storage:
  assumes "distinct (map fst (lastUsedAccounts st))"
  shows "storage (saveState st) = Some (map (\<lambda>(k, v). (toString k, v)) (lastUsedAccounts st))"
proof -
  have "distinct (map toString (map fst (lastUsedAccounts st)))"
    using assms by (simp only: distinct_map) (auto simp: inj_on_def dest: toString_inj)
  then have "distinct (map (\<lambda>p. toString (fst p)) (lastUsedAccounts st))"
    by (simp add: comp_def)
  then show ?thesis
    using fold_update_fresh [of toString "lastUsedAccounts st" "[]"]
    by (simp add: saveState_def)
qed

lemma loadState_saveState:
  assumes "distinct (map fst (lastUsedAccounts st))"
  shows "lastUsedAccounts (loadState (saveState st)) = lastUsedAccounts st"
proof -
  let ?m = "lastUsedAccounts st"
  have "fold (\<lambda>(k, v) m. AList.update (parseInt k) v m) (map (\<lambda>(k, v). (toString k, v)) ?m) []
      = fold (\<lambda>(k, v) m. AList.update (id k) v m) ?m []"
    by (simp add: fold_map comp_def case_prod_unfold parseInt_toString)
  also have "\<dots> = ?m"
    using fold_update_fresh [of id ?m "[]"] assms by (simp add: case_prod_unfold)
  finally show ?thesis
    by (simp add: loadState_def saveState_storage [OF assms])
qed

lemma distinct_fold_load: "distinct (map fst (fold (\<lambda>(k, v) m. AList.update (f k) v m) xs acc))"
  if "distinct (map fst acc)"
  using that by (induction xs arbitrary: acc) (auto simp: AList.distinct_update)

lemma distinct_fold_set: "distinct (map fst (fold (\<lambda>i m. AList.update (g i) v m) xs acc))"
  if "distinct (map fst acc)"
  using that by (induction xs arbitrary: acc) (auto simp: AList.distinct_update)

lemma distinct_loadState:
  "distinct (map fst (lastUsedAccounts st)) \<Longrightarrow> distinct (map fst (lastUsedAccounts (loadState st)))"
  by (auto simp: loadState_def distinct_fold_load split: option.splits)

lemma map_of_fold_set:
  "map_of (fold (\<lambda>i m. AList.update (Some i) now m) ids acc) k =
     (if k \<in> Some ` set ids then Some now else map_of acc k)"
  by (induction ids arbitrary: acc) (auto simp: AList.update_conv')

lemma loadState_idem: "loadState (loadState st) = loadState st"
  by (simp add: loadState_def split: option.splits)

lemma selectFrom_available:
  assumes "a \<in> set (selectFrom poolSize now allAccounts m)"
  shows "\<exists>r \<in> set allAccounts. account_id r = a \<and> available now m r"
proof -
  from assms obtain r where "r \<in> set (filter (available now m) allAccounts)" "account_id r = a"
    by (auto simp: selectFrom_def slice0_def Let_def dest: in_set_takeD)
  then show ?thesis by auto
qed

lemma selectFrom_eligible:
  "a \<in> set (selectFrom poolSize now allAccounts m) \<Longrightarrow> eligible now (map_of m) a"
  by (drule selectFrom_available) (auto simp: eligible_def available_def split: option.splits if_splits)

lemma selectAccounts_step:
  assumes d: "distinct (map fst (lastUsedAccounts st))"
  shows "\<exists>U. returned (fst (selectAccounts env st)) \<subseteq> U
      \<and> (\<forall>a \<in> U. eligible (date_now env) (hydrated st) a)
      \<and> hydrated (snd (selectAccounts env st)) =
          (\<lambda>k. if k \<in> Some ` U then Some (date_now env) else hydrated st k)
      \<and> distinct (map fst (lastUsedAccounts (snd (selectAccounts env st))))"
proof -
  have same: "\<exists>U. {} \<subseteq> U \<and> (\<forall>a \<in> U. eligible (date_now env) (hydrated st) a)
      \<and> hydrated st' = (\<lambda>k. if k \<in> Some ` U then Some (date_now env) else hydrated st k)
      \<and> distinct (map fst (lastUsedAccounts st'))"
    if "hydrated st' = hydrated st" "distinct (map fst (lastUsedAccounts st'))" for st'
    using that by (intro exI [of _ "{}"]) simp
  show ?thesis
  proof (cases "body env")
    case (Inl e)
    then have "selectAccounts env st = (ErrorResponse e, st)" by (simp add: selectAccounts_def)
    then show ?thesis using same [of st] d by (simp add: returned_def)
  next
    case (Inr pc)
    obtain poolSize cid where pc: "pc = (poolSize, cid)" by (cases pc)
    show ?thesis
    proof (cases "storage_get env")
      case (Some e)
      with Inr pc have "selectAccounts env st = (ErrorResponse e, st)" by (simp add: selectAccounts_def)
      then show ?thesis using same [of st] d by (simp add: returned_def)
    next
      case None
      let ?st1 = "loadState st"
      have h1: "hydrated ?st1 = hydrated st" by (simp add: hydrated_def loadState_idem)
      have d1: "distinct (map fst (lastUsedAccounts ?st1))" by (rule distinct_loadState [OF d])
      show ?thesis
      proof (cases "db env")
        case (Inl e)
        with Inr pc None have "selectAccounts env st = (ErrorResponse e, ?st1)"
          by (simp add: selectAccounts_def)
        then show ?thesis using same [of ?st1] h1 d1 by (simp add: returned_def)
      next
        case tbl: (Inr tbl)
        let ?all = "activeAccountsQuery tbl (poolSize * 2)"
        show ?thesis
        proof (cases "?all = []")
          case True
          with Inr pc None tbl have "selectAccounts env st = (AccountIds [], ?st1)"
            by (simp add: selectAccounts_def)
          then show ?thesis using same [of ?st1] h1 d1 by (simp add: returned_def)
        next
          case False
          let ?now = "date_now env"
          let ?ids = "selectFrom poolSize ?now ?all (lastUsedAccounts ?st1)"
          let ?m2 = "fold (\<lambda>i m. AList.update (Some i) ?now m) ?ids (lastUsedAccounts ?st1)"
          let ?st2 = "?st1\<lparr>lastUsedAccounts := ?m2\<rparr>"
          have d2: "distinct (map fst (lastUsedAccounts ?st2))"
            using distinct_fold_set [OF d1, of Some ?now ?ids] by simp
          have el: "\<forall>a \<in> set ?ids. eligible ?now (hydrated st) a"
            using selectFrom_eligible [of _ poolSize ?now ?all "lastUsedAccounts ?st1"]
            by (auto simp: hydrated_def)
          have m2: "map_of ?m2 = (\<lambda>k. if k \<in> Some ` set ?ids then Some ?now else hydrated st k)"
            by (rule ext) (simp add: map_of_fold_set hydrated_def)
          show ?thesis
          proof (cases "storage_put env")
            case put: None
            with Inr pc None tbl False
            have res: "selectAccounts env st = (AccountIds ?ids, saveState ?st2)"
              by (simp add: selectAccounts_def Let_def)
            have "hydrated (saveState ?st2) = map_of ?m2"
              using loadState_saveState [OF d2] by (simp add: hydrated_def)
            moreover have "distinct (map fst (lastUsedAccounts (saveState ?st2)))"
              using d2 by (simp add: saveState_def)
            ultimately show ?thesis
              using res el m2 by (intro exI [of _ "set ?ids"]) (simp add: returned_def)
          next
            case put: (Some e)
            with Inr pc None tbl False
            have res: "selectAccounts env st = (ErrorResponse e, ?st2)"
              by (simp add: selectAccounts_def Let_def)
            show ?thesis
            proof (cases "storage st")
              case None
              then have "hydrated ?st2 = map_of ?m2"
                by (simp add: hydrated_def loadState_def)
              then show ?thesis
                using res el m2 d2 by (intro exI [of _ "set ?ids"]) (simp add: returned_def)
            next
              case (Some stored)
              then have "hydrated ?st2 = hydrated st"
                by (simp add: hydrated_def loadState_def)
              then show ?thesis
                using res same [of ?st2] d2 by (simp add: returned_def)
            qed
          qed
        qed
      qed
    qed
  qed
qed

lemma step_blocked:
  assumes "distinct (map fst (lastUsedAccounts st))"
    and "reservedSince B (hydrated st) a"
    and "a \<in> returned (fst (selectAccounts env st))"
  shows "B + minTimeBetweenUses \<le> date_now env"
proof -
  from selectAccounts_step [OF assms(1), of env] assms(3)
  have "eligible (date_now env) (hydrated st) a" by blast
  with assms(2) show ?thesis
    by (auto simp: eligible_def reservedSince_def split: option.splits)
qed

lemma step_preserved:
  assumes "distinct (map fst (lastUsedAccounts st))"
    and "reservedSince B (hydrated st) a"
    and "date_now env \<noteq> 0"
  shows "reservedSince B (hydrated (snd (selectAccounts env st))) a"
proof -
  from selectAccounts_step [OF assms(1), of env]
  obtain U where el: "\<forall>a \<in> U. eligible (date_now env) (hydrated st) a"
    and h: "hydrated (snd (selectAccounts env st)) =
          (\<lambda>k. if k \<in> Some ` U then Some (date_now env) else hydrated st k)"
    by blast
  show ?thesis
  proof (cases "a \<in> U")
    case True
    with el have "eligible (date_now env) (hydrated st) a" by blast
    with assms(2) have "B \<le> date_now env"
      by (auto simp: eligible_def reservedSince_def minTimeBetweenUses_def split: option.splits)
    with True assms(3) h show ?thesis by (simp add: reservedSince_def)
  next
    case False
    then have "Some a \<notin> Some ` U" by auto
    with h assms(2) show ?thesis by (simp add: reservedSince_def)
  qed
qed

lemma step_established:
  assumes "distinct (map fst (lastUsedAccounts st))"
    and "a \<in> returned (fst (selectAccounts env st))"
    and "date_now env \<noteq> 0"
  shows "reservedSince (date_now env) (hydrated (snd (selectAccounts env st))) a"
proof -
  from selectAccounts_step [OF assms(1), of env]
  obtain U where "returned (fst (selectAccounts env st)) \<subseteq> U"
    and h: "hydrated (snd (selectAccounts env st)) =
          (\<lambda>k. if k \<in> Some ` U then Some (date_now env) else hydrated st k)"
    by blast
  with assms(2) have "a \<in> U" by blast
  with h assms(3) show ?thesis by (simp add: reservedSince_def)
qed

lemma step_distinct:
  "distinct (map fst (lastUsedAccounts st)) \<Longrightarrow>
   distinct (map fst (lastUsedAccounts (snd (selectAccounts env st))))"
  using selectAccounts_step [of st env] by blast

lemma reserveAll_Cons:
  "reserveAll (env # envs) st = fst (selectAccounts env st) # reserveAll envs (snd (selectAccounts env st))"
  by (simp add: case_prod_unfold Let_def)

lemma reserveAll_blocked:
  assumes "distinct (map fst (lastUsedAccounts st))"
    and "reservedSince B (hydrated st) a"
    and "\<forall>env \<in> set envs. date_now env \<noteq> 0"
    and "j < length envs"
    and "a \<in> returned (reserveAll envs st ! j)"
  shows "B + minTimeBetweenUses \<le> date_now (envs ! j)"
  using assms
proof (induction envs arbitrary: st j)
  case Nil
  then show ?case by simp
next
  case (Cons env envs)
  show ?case
  proof (cases j)
    case 0
    with Cons.prems show ?thesis
      by (simp add: reserveAll_Cons step_blocked del: reserveAll.simps)
  next
    case (Suc j')
    let ?st' = "snd (selectAccounts env st)"
    have "distinct (map fst (lastUsedAccounts ?st'))"
      by (rule step_distinct) (rule Cons.prems(1))
    moreover have "reservedSince B (hydrated ?st') a"
      using Cons.prems by (intro step_preserved) simp_all
    moreover have "\<forall>env \<in> set envs. date_now env \<noteq> 0" using Cons.prems by simp
    moreover have "j' < length envs" using Cons.prems Suc by simp
    moreover have "a \<in> returned (reserveAll envs ?st' ! j')"
      using Cons.prems Suc by (simp add: reserveAll_Cons del: reserveAll.simps)
    ultimately have "B + minTimeBetweenUses \<le> date_now (envs ! j')"
      by (rule Cons.IH)
    with Suc show ?thesis by simp
  qed
qed

lemma reserveAll_pairs:
  assumes "distinct (map fst (lastUsedAccounts st))"
    and "\<forall>env \<in> set envs. date_now env \<noteq> 0"
    and "i < j" and "j < length envs"
    and "a \<in> returned (reserveAll envs st ! i)"
    and "a \<in> returned (reserveAll envs st ! j)"
  shows "minTimeBetweenUses \<le> date_now (envs ! j) - date_now (envs ! i)"
  using assms
proof (induction envs arbitrary: st i j)
  case Nil
  then show ?case by simp
next
  case (Cons env envs)
  let ?st' = "snd (selectAccounts env st)"
  have d': "distinct (map fst (lastUsedAccounts ?st'))"
    by (rule step_distinct) (rule Cons.prems(1))
  have nz': "\<forall>env \<in> set envs. date_now env \<noteq> 0" using Cons.prems by simp
  from Cons.prems obtain j' where j: "j = Suc j'" by (cases j) auto
  then have j'len: "j' < length envs" using Cons.prems by simp
  have aj: "a \<in> returned (reserveAll envs ?st' ! j')"
    using Cons.prems j by (simp add: reserveAll_Cons del: reserveAll.simps)
  show ?case
  proof (cases i)
    case 0
    with Cons.prems have "a \<in> returned (fst (selectAccounts env st))"
      by (simp add: reserveAll_Cons del: reserveAll.simps)
    then have "reservedSince (date_now env) (hydrated ?st') a"
      using Cons.prems by (intro step_established) simp_all
    from reserveAll_blocked [OF d' this nz' j'len aj]
    show ?thesis using 0 j by simp
  next
    case (Suc i')
    have "i' < j'" using Cons.prems Suc j by simp
    moreover have "a \<in> returned (reserveAll envs ?st' ! i')"
      using Cons.prems Suc by (simp add: reserveAll_Cons del: reserveAll.simps)
    ultimately have "minTimeBetweenUses \<le> date_now (envs ! j') - date_now (envs ! i')"
      using Cons.IH [OF d' nz' _ j'len _ aj] by blast
    with Suc j show ?thesis by simp
  qed
qed

text \<open>
  Claim C1. On one allocator instance, started over any stored snapshot and serving any
  sequence of calls (failing ones included), an account identity returned by two calls is
  returned at times at least \<open>minTimeBetweenUses\<close> (one hour, 3600000 ms) apart. The
  filter keeps an account only when its entry in the state map is missing or at least that
  old (\<open>selectFrom_eligible\<close>), and every returned account's entry is set to \<open>now\<close> and
  stored before the call returns (\<open>selectAccounts_step\<close>). The times are those of
  \<^verbatim>\<open>Date.now()\<close>, never 0: the filter's \<^verbatim>\<open>!lastUsed\<close> reads a zero entry as no entry.
  The clock need not be monotone.
\<close>

theorem no_double_allocation:
  assumes "\<forall>env \<in> set envs. date_now env \<noteq> 0"
    and "i < j" and "j < length envs"
    and "a \<in> returned (reserveAll envs (constructor stored) ! i)"
    and "a \<in> returned (reserveAll envs (constructor stored) ! j)"
  shows "minTimeBetweenUses \<le> date_now (envs ! j) - date_now (envs ! i)"
  by (rule reserveAll_pairs [OF _ assms]) (simp add: constructor_def)

lemma selectFrom_distinct:
  assumes "distinct (map account_id allAccounts)"
  shows "distinct (selectFrom poolSize now allAccounts m)"
proof -
  have "distinct (map account_id (filter (available now m) allAccounts))"
    using assms by (rule distinct_map_filter)
  then show ?thesis
    by (simp add: selectFrom_def slice0_def Let_def flip: take_map)
qed

lemma selectAccounts_ids:
  assumes "selectAccounts env st = (AccountIds ids, st')"
  shows "ids = [] \<or> (\<exists>poolSize cid tbl. body env = Inr (poolSize, cid) \<and> db env = Inr tbl
           \<and> storage_get env = None \<and> storage_put env = None
           \<and> ids = selectFrom poolSize (date_now env) (activeAccountsQuery tbl (poolSize * 2))
                   (lastUsedAccounts (loadState st))
           \<and> st' = saveState ((loadState st)\<lparr>lastUsedAccounts :=
                 fold (\<lambda>i m. AList.update (Some i) (date_now env) m) ids (lastUsedAccounts (loadState st))\<rparr>))"
  using assms
  by (auto simp: selectAccounts_def Let_def split: sum.splits option.splits if_splits prod.splits)

text \<open>
  Claim C10. Within one call the returned identities are pairwise distinct, provided the rows
  the store query produced have pairwise distinct ids: filtering and taking a prefix bring in
  no duplicate.
\<close>

theorem selectAccounts_distinct:
  assumes "body env = Inr (poolSize, cid)" and "db env = Inr tbl"
    and "distinct (map account_id (activeAccountsQuery tbl (poolSize * 2)))"
    and "selectAccounts env st = (AccountIds ids, st')"
  shows "distinct ids"
  using selectAccounts_ids [OF assms(4)] assms(1-3) by (auto simp: selectFrom_distinct)

lemma slice0_length: "0 \<le> n \<Longrightarrow> int (length (slice0 n xs)) \<le> n"
  by (simp add: slice0_def Let_def)

lemma selectFrom_length:
  assumes "0 \<le> poolSize"
  shows "int (length (selectFrom poolSize now allAccounts m)) \<le> poolSize"
  using assms by (auto simp: selectFrom_def slice0_def Let_def min_def)

lemma selectFrom_subset:
  "set (selectFrom poolSize now allAccounts m) \<subseteq> account_id ` set allAccounts"
  by (auto simp: selectFrom_def slice0_def Let_def dest!: in_set_takeD)

lemma activeAccountsQuery_active:
  "set (activeAccountsQuery tbl limit) \<subseteq> {r \<in> set tbl. account_status r = Active}"
  by (auto simp: activeAccountsQuery_def sqlLimit_def dest!: in_set_takeD)

lemma selectAccounts_upper_bound:
  assumes "selectAccounts env st = (AccountIds ids, st')" and "body env = Inr (poolSize, cid)"
    and "0 \<le> poolSize"
  shows "int (length ids) \<le> poolSize"
  using selectAccounts_ids [OF assms(1)] assms(2,3) by (auto simp: selectFrom_length)

lemma selectAccounts_active:
  assumes "selectAccounts env st = (AccountIds ids, st')" and "db env = Inr tbl"
  shows "set ids \<subseteq> account_id ` {r \<in> set tbl. account_status r = Active}"
proof -
  from selectAccounts_ids [OF assms(1)] show ?thesis
  proof
    assume "ids = []"
    then show ?thesis by simp
  next
    assume "\<exists>poolSize cid tbl. body env = Inr (poolSize, cid) \<and> db env = Inr tbl
           \<and> storage_get env = None \<and> storage_put env = None
           \<and> ids = selectFrom poolSize (date_now env) (activeAccountsQuery tbl (poolSize * 2))
                   (lastUsedAccounts (loadState st))
           \<and> st' = saveState ((loadState st)\<lparr>lastUsedAccounts :=
                 fold (\<lambda>i m. AList.update (Some i) (date_now env) m) ids (lastUsedAccounts (loadState st))\<rparr>)"
    with assms(2) obtain poolSize where
      "ids = selectFrom poolSize (date_now env) (activeAccountsQuery tbl (poolSize * 2))
                   (lastUsedAccounts (loadState st))" by auto
    then show ?thesis
      using selectFrom_subset activeAccountsQuery_active by fast
  qed
qed

text \<open>
  Claim C2. The returned identities always belong to the active rows of the table
  (\<open>selectAccounts_active\<close>), and there are at most \<open>poolSize\<close> of them when \<open>poolSize\<close>
  is not negative (\<open>selectAccounts_upper_bound\<close>). For a negative \<open>poolSize\<close> the bound
  fails: the query's \<^verbatim>\<open>LIMIT -2\<close> bounds nothing and \<^verbatim>\<open>slice(0, -1)\<close> drops only the
  last eligible row, so a pool of three active accounts and \<open>poolSize = -1\<close> yields two
  identities.
\<close>

theorem selectAccounts_negative_poolSize:
  "fst (selectAccounts \<lparr>body = Inr (- 1, 1), storage_get = None, db = Inr pool3,
        date_now = 1700000000000, storage_put = None\<rparr> (constructor None)) = AccountIds [1, 2]
   \<and> \<not> int (length [1, 2 :: int]) \<le> - 1"
  by (simp add: selectAccounts_def constructor_def loadState_def activeAccountsQuery_def sqlLimit_def
      pool3_def selectFrom_def available_def slice0_def Let_def)

text \<open>
  Claim C3. A call that returns account \<open>a\<close> at time \<open>T\<close> (\<open>date_now env\<close>) has put
  the state into storage before it returns: the snapshot is there, it loads back equal to the
  in-memory map (\<open>loadState_saveState\<close> is the round trip of \<^verbatim>\<open>saveState\<close> through
  \<^verbatim>\<open>loadState\<close>), and it holds \<open>a\<close> at \<open>T\<close>. A fresh instance over that snapshot
  does not return \<open>a\<close> from any call before \<open>T + minTimeBetweenUses\<close>: the reuse filter
  applies to hydrated entries as to any other. (The one path that returns without writing is
  the empty store result, which changes no entry; \<open>selectAccounts_persisted\<close> covers it.)
\<close>

theorem allocator_survives_restart:
  assumes "distinct (map fst (lastUsedAccounts st))"
    and "selectAccounts env st = (AccountIds ids, st')"
    and "a \<in> set ids"
    and "date_now env \<noteq> 0"
    and "date_now env' < date_now env + minTimeBetweenUses"
  shows "storage st' \<noteq> None
    \<and> hydrated (restart st') = map_of (lastUsedAccounts st')
    \<and> hydrated (restart st') (Some a) = Some (date_now env)
    \<and> a \<notin> returned (fst (selectAccounts env' (restart st')))"
proof -
  from selectAccounts_ids [OF assms(2)] assms(3)
  obtain st2 where st': "st' = saveState st2"
    and st2: "st2 = (loadState st)\<lparr>lastUsedAccounts :=
        fold (\<lambda>i m. AList.update (Some i) (date_now env) m) ids (lastUsedAccounts (loadState st))\<rparr>"
    by auto
  have d2: "distinct (map fst (lastUsedAccounts st2))"
    using distinct_fold_set [OF distinct_loadState [OF assms(1)], of Some "date_now env" ids]
    by (simp add: st2)
  have stored: "storage st' \<noteq> None" by (simp add: st' saveState_def)
  have "loadState (restart st') = (loadState st')\<lparr>lastUsedAccounts := lastUsedAccounts (loadState st')\<rparr>"
    using stored by (auto simp: restart_def constructor_def loadState_def)
  then have same: "hydrated (restart st') = hydrated st'"
    by (simp add: hydrated_def)
  have full: "hydrated st' = map_of (lastUsedAccounts st')"
    using loadState_saveState [OF d2] by (simp add: hydrated_def st' saveState_def)
  have got: "hydrated st' (Some a) = Some (date_now env)"
    using assms(3) by (simp add: full) (simp add: st' saveState_def st2 map_of_fold_set)
  have dr: "distinct (map fst (lastUsedAccounts (restart st')))"
    by (simp add: restart_def constructor_def)
  have "reservedSince (date_now env) (hydrated (restart st')) a"
    using got assms(4) by (simp add: same reservedSince_def)
  then have "a \<notin> returned (fst (selectAccounts env' (restart st')))"
    using step_blocked [OF dr, of "date_now env" a env'] assms(5) by auto
  with stored same full got show ?thesis by simp
qed

lemma toString_7: "toString (Some 7) = ''7''"
  by code_simp

lemmas eval_defs = selectAccounts_def constructor_def loadState_def saveState_def activeAccountsQuery_def
  sqlLimit_def selectFrom_def available_def slice0_def Let_def account7_def call_def
  toString_7 parseInt_def isWhiteSpace_def stripPrefix_def parseDigits_def
  isDigitOf_def digitValue_def digitsValue_def minTimeBetweenUses_def returned_def

lemma first_call:
  "selectAccounts (call 1 1700000000000) (constructor None) =
     (AccountIds [7], \<lparr>lastUsedAccounts = [(Some 7, 1700000000000)], storage = Some [(''7'', 1700000000000)]\<rparr>)"
  by (simp add: eval_defs)

lemma second_call:
  "selectAccounts (call 1 1700003600000)
      \<lparr>lastUsedAccounts = [(Some 7, 1700000000000)], storage = Some [(''7'', 1700000000000)]\<rparr> =
     (AccountIds [7], \<lparr>lastUsedAccounts = [(Some 7, 1700003600000)], storage = Some [(''7'', 1700003600000)]\<rparr>)"
  by (simp add: eval_defs)

theorem allocator_survives_restart_witness:
  "selectAccounts (call 1 1700000000000) (constructor None) =
     (AccountIds [7], \<lparr>lastUsedAccounts = [(Some 7, 1700000000000)], storage = Some [(''7'', 1700000000000)]\<rparr>)
   \<and> 7 \<notin> returned (fst (selectAccounts (call 1 1700003599999) (constructor (Some [(''7'', 1700000000000)]))))"
proof -
  have "distinct (map fst (lastUsedAccounts (constructor None)))" by (simp add: constructor_def)
  from allocator_survives_restart [OF this first_call, of 7 "call 1 1700003599999"]
  show ?thesis using first_call by (simp add: restart_def call_def minTimeBetweenUses_def)
qed

theorem no_double_allocation_witness:
  "7 \<in> returned (reserveAll [call 1 1700000000000, call 1 1700003600000] (constructor None) ! 0)
   \<and> 7 \<in> returned (reserveAll [call 1 1700000000000, call 1 1700003600000] (constructor None) ! 1)
   \<and> minTimeBetweenUses \<le> date_now ([call 1 1700000000000, call 1 1700003600000] ! 1)
        - date_now ([call 1 1700000000000, call 1 1700003600000] ! 0)"
proof -
  let ?envs = "[call 1 1700000000000, call 1 1700003600000]"
  have rs: "reserveAll ?envs (constructor None) = [AccountIds [7], AccountIds [7]]"
    by (simp add: first_call second_call)
  have nz: "\<forall>env \<in> set ?envs. date_now env \<noteq> 0" by (simp add: call_def)
  have r0: "7 \<in> returned (reserveAll ?envs (constructor None) ! 0)"
    and r1: "7 \<in> returned (reserveAll ?envs (constructor None) ! 1)"
    by (simp_all only: rs) (simp_all add: returned_def)
  from no_double_allocation [OF nz _ _ r0 r1] r0 r1 show ?thesis by simp
qed

theorem selectAccounts_distinct_witness:
  "distinct (map account_id (activeAccountsQuery pool3 (2 * 2)))
   \<and> fst (selectAccounts \<lparr>body = Inr (2, 1), storage_get = None, db = Inr pool3,
        date_now = 1700000000000, storage_put = None\<rparr> (constructor None)) = AccountIds [1, 2]
   \<and> distinct [1, 2 :: int]"
proof -
  let ?env = "\<lparr>body = Inr (2, 1), storage_get = None, db = Inr pool3,
        date_now = 1700000000000, storage_put = None\<rparr>"
  have q: "distinct (map account_id (activeAccountsQuery pool3 (2 * 2)))"
    by (simp add: activeAccountsQuery_def sqlLimit_def pool3_def)
  obtain st' where r: "selectAccounts ?env (constructor None) = (AccountIds [1, 2], st')"
    by (simp add: eval_defs pool3_def)
  from selectAccounts_distinct [OF _ _ q r] q r show ?thesis by simp
qed

subsection \<open>Sweeps, and what one call leaves behind\<close>

lemma map_of_filter_values:
  assumes "distinct (map fst al)"
  shows "map_of (filter (\<lambda>(k, v). P v) al) k =
     (case map_of al k of None \<Rightarrow> None | Some v \<Rightarrow> if P v then Some v else None)"
  using assms
proof (induction al)
  case Nil
  then show ?case by simp
next
  case (Cons p al)
  obtain k' v' where p: "p = (k', v')" by (cases p)
  from Cons.prems p have notin: "k' \<notin> fst ` set al" and d: "distinct (map fst al)" by auto
  show ?case
  proof (cases "k = k'")
    case True
    with notin have "map_of al k = None" by (simp add: map_of_eq_None_iff)
    moreover from True notin have "map_of (filter (\<lambda>(k, v). P v) al) k = None"
      by (auto simp: map_of_eq_None_iff)
    ultimately show ?thesis using True p by simp
  next
    case False
    with Cons.IH [OF d] p show ?thesis by simp
  qed
qed

lemma alarm_step:
  assumes d: "distinct (map fst (lastUsedAccounts st))"
  shows "(\<forall>k. hydrated (alarm env st) k = hydrated st k
            \<or> (hydrated (alarm env st) k = None
                \<and> (\<exists>t. hydrated st k = Some t \<and> date_now env - t > dayInMs)))
      \<and> distinct (map fst (lastUsedAccounts (alarm env st)))"
proof (cases "storage_get env")
  case (Some e)
  then show ?thesis using d by (simp add: alarm_def)
next
  case None
  let ?st1 = "loadState st"
  let ?m2 = "filter (\<lambda>(accountId, timestamp). \<not> date_now env - timestamp > dayInMs) (lastUsedAccounts ?st1)"
  let ?st2 = "?st1\<lparr>lastUsedAccounts := ?m2\<rparr>"
  have d1: "distinct (map fst (lastUsedAccounts ?st1))" by (rule distinct_loadState [OF d])
  have d2: "distinct (map fst (lastUsedAccounts ?st2))"
    using d1 by (simp add: distinct_map_filter)
  have m2: "map_of ?m2 k = (case hydrated st k of None \<Rightarrow> None
      | Some t \<Rightarrow> if \<not> date_now env - t > dayInMs then Some t else None)" for k
    using map_of_filter_values [OF d1, of "\<lambda>t. \<not> date_now env - t > dayInMs" k]
    by (simp add: hydrated_def)
  have swept: "hydrated st' k = hydrated st k
            \<or> (hydrated st' k = None \<and> (\<exists>t. hydrated st k = Some t \<and> date_now env - t > dayInMs))"
    if "hydrated st' = map_of ?m2" for st' k
    using that m2 [of k] by (auto split: option.splits if_splits)
  show ?thesis
  proof (cases "storage_put env")
    case put: None
    with None have res: "alarm env st = saveState ?st2" by (simp add: alarm_def Let_def)
    have "hydrated (saveState ?st2) = map_of ?m2"
      using loadState_saveState [OF d2] by (simp add: hydrated_def)
    moreover have "distinct (map fst (lastUsedAccounts (saveState ?st2)))"
      using d2 by (simp add: saveState_def)
    ultimately show ?thesis using res swept by simp
  next
    case put: (Some e)
    with None have res: "alarm env st = ?st2" by (simp add: alarm_def Let_def)
    show ?thesis
    proof (cases "storage st")
      case None
      then have "hydrated ?st2 = map_of ?m2" by (simp add: hydrated_def loadState_def)
      then show ?thesis using res swept d2 by simp
    next
      case (Some stored)
      then have "hydrated ?st2 = hydrated st" by (simp add: hydrated_def loadState_def)
      then show ?thesis using res d2 by simp
    qed
  qed
qed

lemma after_distinct:
  "distinct (map fst (lastUsedAccounts st)) \<Longrightarrow> distinct (map fst (lastUsedAccounts (after e st)))"
  by (cases e) (simp_all add: step_distinct alarm_step)

lemma event_blocked:
  assumes "distinct (map fst (lastUsedAccounts st))" and "blockedSince B c st a"
    and "c \<le> time_of e" and "a \<in> returnedBy e st"
  shows "B + minTimeBetweenUses \<le> time_of e"
proof (cases e)
  case (Reserve env)
  with assms show ?thesis
    using step_blocked [OF assms(1), of B a env] by (auto simp: blockedSince_def)
next
  case (Sweep env)
  with assms show ?thesis by simp
qed

lemma event_preserved:
  assumes d: "distinct (map fst (lastUsedAccounts st))" and b: "blockedSince B c st a"
    and c: "c \<le> time_of e" and nz: "time_of e \<noteq> 0"
  shows "blockedSince B (time_of e) (after e st) a"
proof (cases "reservedSince B (hydrated st) a")
  case False
  with b c show ?thesis by (simp add: blockedSince_def)
next
  case True
  show ?thesis
  proof (cases e)
    case (Reserve env)
    with True d nz show ?thesis
      using step_preserved [OF d True, of env] by (simp add: blockedSince_def)
  next
    case (Sweep env)
    from True obtain t where t: "hydrated st (Some a) = Some t" "t \<noteq> 0" "B \<le> t"
      by (auto simp: reservedSince_def split: option.splits)
    from alarm_step [OF d, of env]
    consider "hydrated (alarm env st) (Some a) = hydrated st (Some a)"
      | "\<exists>t'. hydrated st (Some a) = Some t' \<and> date_now env - t' > dayInMs"
      by blast
    then show ?thesis
    proof cases
      case 1
      with t Sweep show ?thesis by (simp add: blockedSince_def reservedSince_def)
    next
      case 2
      with t have "date_now env - t > dayInMs" by simp
      with t Sweep show ?thesis
        by (simp add: blockedSince_def dayInMs_def minTimeBetweenUses_def)
    qed
  qed
qed

lemma event_established:
  assumes "distinct (map fst (lastUsedAccounts st))" and "a \<in> returnedBy e st" and "time_of e \<noteq> 0"
  shows "blockedSince (time_of e) (time_of e) (after e st) a"
proof (cases e)
  case (Reserve env)
  with assms show ?thesis
    using step_established [OF assms(1), of a env] by (simp add: blockedSince_def)
next
  case (Sweep env)
  with assms show ?thesis by simp
qed

lemma history_blocked:
  assumes "distinct (map fst (lastUsedAccounts st))" and "blockedSince B c st a"
    and "sorted (map time_of es)" and "\<forall>e \<in> set es. c \<le> time_of e \<and> time_of e \<noteq> 0"
    and "j < length es" and "a \<in> history es st ! j"
  shows "B + minTimeBetweenUses \<le> time_of (es ! j)"
  using assms
proof (induction es arbitrary: st c j)
  case Nil
  then show ?case by simp
next
  case (Cons e es)
  show ?case
  proof (cases j)
    case 0
    with Cons.prems show ?thesis
      using event_blocked [of st B c a e] by simp
  next
    case (Suc j')
    have "distinct (map fst (lastUsedAccounts (after e st)))"
      by (rule after_distinct) (rule Cons.prems(1))
    moreover have "blockedSince B (time_of e) (after e st) a"
      using Cons.prems by (intro event_preserved [of st B c]) simp_all
    moreover have "sorted (map time_of es)" using Cons.prems by simp
    moreover have "\<forall>e' \<in> set es. time_of e \<le> time_of e' \<and> time_of e' \<noteq> 0"
      using Cons.prems by simp
    moreover have "j' < length es" using Cons.prems Suc by simp
    moreover have "a \<in> history es (after e st) ! j'" using Cons.prems Suc by simp
    ultimately have "B + minTimeBetweenUses \<le> time_of (es ! j')" by (rule Cons.IH)
    with Suc show ?thesis by simp
  qed
qed

lemma history_pairs:
  assumes "distinct (map fst (lastUsedAccounts st))"
    and "sorted (map time_of es)" and "\<forall>e \<in> set es. time_of e \<noteq> 0"
    and "i < j" and "j < length es"
    and "a \<in> history es st ! i" and "a \<in> history es st ! j"
  shows "minTimeBetweenUses \<le> time_of (es ! j) - time_of (es ! i)"
  using assms
proof (induction es arbitrary: st i j)
  case Nil
  then show ?case by simp
next
  case (Cons e es)
  have d': "distinct (map fst (lastUsedAccounts (after e st)))"
    by (rule after_distinct) (rule Cons.prems(1))
  have s': "sorted (map time_of es)" using Cons.prems by simp
  have nz': "\<forall>e \<in> set es. time_of e \<noteq> 0" using Cons.prems by simp
  from Cons.prems obtain j' where j: "j = Suc j'" by (cases j) auto
  then have j'len: "j' < length es" using Cons.prems by simp
  have aj: "a \<in> history es (after e st) ! j'" using Cons.prems j by simp
  show ?case
  proof (cases i)
    case 0
    with Cons.prems have "a \<in> returnedBy e st" by simp
    then have b: "blockedSince (time_of e) (time_of e) (after e st) a"
      using Cons.prems by (intro event_established) simp_all
    have later: "\<forall>e' \<in> set es. time_of e \<le> time_of e' \<and> time_of e' \<noteq> 0"
      using Cons.prems by simp
    from history_blocked [OF d' b s' later j'len aj]
    show ?thesis using 0 j by simp
  next
    case (Suc i')
    have "i' < j'" using Cons.prems Suc j by simp
    moreover have "a \<in> history es (after e st) ! i'" using Cons.prems Suc by simp
    ultimately have "minTimeBetweenUses \<le> time_of (es ! j') - time_of (es ! i')"
      using Cons.IH [OF d' s' nz' _ j'len _ aj] by blast
    with Suc j show ?thesis by simp
  qed
qed

text \<open>
  The same holds when maintenance sweeps run between the calls, as long as the clock does not
  go backwards: a sweep deletes only entries older than a day, and a day is longer than the
  reuse interval.
\<close>

lemma no_double_allocation_with_sweeps:
  assumes "sorted (map time_of es)" and "\<forall>e \<in> set es. time_of e \<noteq> 0"
    and "i < j" and "j < length es"
    and "a \<in> history es (constructor stored) ! i"
    and "a \<in> history es (constructor stored) ! j"
  shows "minTimeBetweenUses \<le> time_of (es ! j) - time_of (es ! i)"
  by (rule history_pairs [OF _ assms]) (simp add: constructor_def)

text \<open>
  One call, read directly: a returned account passed the filter on the hydrated map, and its
  entry is \<open>now\<close> when the call returns.
\<close>

lemma selectAccounts_filters_and_stamps:
  assumes "selectAccounts env st = (AccountIds ids, st')" and "a \<in> set ids"
  shows "eligible (date_now env) (hydrated st) a
    \<and> map_of (lastUsedAccounts st') (Some a) = Some (date_now env)"
proof -
  from selectAccounts_ids [OF assms(1)] assms(2)
  obtain poolSize tbl where ids: "ids = selectFrom poolSize (date_now env)
        (activeAccountsQuery tbl (poolSize * 2)) (lastUsedAccounts (loadState st))"
    and st': "st' = saveState ((loadState st)\<lparr>lastUsedAccounts :=
        fold (\<lambda>i m. AList.update (Some i) (date_now env) m) ids (lastUsedAccounts (loadState st))\<rparr>)"
    by auto
  have "eligible (date_now env) (hydrated st) a"
    using assms(2) selectFrom_eligible [of a] by (auto simp: ids hydrated_def)
  moreover have "map_of (lastUsedAccounts st') (Some a) = Some (date_now env)"
    using assms(2) by (simp add: st' saveState_def map_of_fold_set)
  ultimately show ?thesis by simp
qed

text \<open>
  While no \<^verbatim>\<open>storage.put\<close> has failed, the memory is empty whenever the storage is
  (\<open>synced\<close>), and then every call that answers with identities, the empty list included,
  leaves a snapshot that loads back equal to the in-memory map.
\<close>

lemma selectAccounts_persisted:
  assumes "distinct (map fst (lastUsedAccounts st))" and "synced st"
    and "selectAccounts env st = (AccountIds ids, st')"
  shows "hydrated (restart st') = map_of (lastUsedAccounts st') \<and> synced st'"
proof (cases "ids = []")
  case False
  then obtain a where a: "a \<in> set ids" by (cases ids) auto
  have "date_now env' < date_now env' + minTimeBetweenUses" for env'
    by (simp add: minTimeBetweenUses_def)
  from selectAccounts_ids [OF assms(3)] False
  obtain st2 where st': "st' = saveState st2"
    and st2: "st2 = (loadState st)\<lparr>lastUsedAccounts :=
        fold (\<lambda>i m. AList.update (Some i) (date_now env) m) ids (lastUsedAccounts (loadState st))\<rparr>"
    by auto
  have d2: "distinct (map fst (lastUsedAccounts st2))"
    using distinct_fold_set [OF distinct_loadState [OF assms(1)], of Some "date_now env" ids]
    by (simp add: st2)
  have "lastUsedAccounts (loadState (restart st')) = lastUsedAccounts (loadState st')"
    by (simp add: restart_def constructor_def loadState_def st' saveState_def)
  then show ?thesis
    using loadState_saveState [OF d2]
    by (simp add: hydrated_def st' synced_def) (simp add: saveState_def)
next
  case True
  from assms(3) True consider "st' = loadState st" | st2 where "st' = saveState st2"
      "distinct (map fst (lastUsedAccounts st2))"
  proof -
    assume a1: "st' = loadState st \<Longrightarrow> thesis"
      and a2: "\<And>st2. st' = saveState st2 \<Longrightarrow> distinct (map fst (lastUsedAccounts st2)) \<Longrightarrow> thesis"
    from selectAccounts_ids [OF assms(3)] show thesis
    proof
      assume "ids = []"
      with assms(3) have "st' = loadState st \<or> st' = saveState ((loadState st)\<lparr>lastUsedAccounts :=
          fold (\<lambda>i m. AList.update (Some i) (date_now env) m) [] (lastUsedAccounts (loadState st))\<rparr>)"
        by (auto simp: selectAccounts_def Let_def split: sum.splits option.splits if_splits prod.splits)
      then show thesis
      proof
        assume "st' = loadState st" then show thesis by (rule a1)
      next
        assume s: "st' = saveState ((loadState st)\<lparr>lastUsedAccounts :=
          fold (\<lambda>i m. AList.update (Some i) (date_now env) m) [] (lastUsedAccounts (loadState st))\<rparr>)"
        show thesis
          by (rule a2 [OF s]) (simp add: distinct_loadState [OF assms(1)])
      qed
    next
      assume "\<exists>poolSize cid tbl. body env = Inr (poolSize, cid) \<and> db env = Inr tbl
           \<and> storage_get env = None \<and> storage_put env = None
           \<and> ids = selectFrom poolSize (date_now env) (activeAccountsQuery tbl (poolSize * 2))
                   (lastUsedAccounts (loadState st))
           \<and> st' = saveState ((loadState st)\<lparr>lastUsedAccounts :=
                 fold (\<lambda>i m. AList.update (Some i) (date_now env) m) ids (lastUsedAccounts (loadState st))\<rparr>)"
      then have s: "st' = saveState ((loadState st)\<lparr>lastUsedAccounts :=
                 fold (\<lambda>i m. AList.update (Some i) (date_now env) m) ids (lastUsedAccounts (loadState st))\<rparr>)"
        by blast
      show thesis
        by (rule a2 [OF s])
          (use distinct_fold_set [OF distinct_loadState [OF assms(1)], of Some "date_now env" ids] in simp)
    qed
  qed
  then show ?thesis
  proof cases
    case 1
    show ?thesis
    proof (cases "storage st")
      case None
      with assms(2) 1 show ?thesis
        by (simp add: hydrated_def restart_def constructor_def loadState_def synced_def)
    next
      case (Some stored)
      with 1 show ?thesis
        by (simp add: hydrated_def restart_def constructor_def loadState_def synced_def)
    qed
  next
    case 2
    have "lastUsedAccounts (loadState (restart st')) = lastUsedAccounts (loadState st')"
      by (simp add: restart_def constructor_def loadState_def 2 saveState_def)
    then show ?thesis
      using loadState_saveState [OF 2(2)]
      by (simp add: hydrated_def 2 synced_def) (simp add: saveState_def)
  qed
qed

section \<open>Link filtering: verification\<close>

lemma startsWith_iff: "startsWith s k \<longleftrightarrow> (\<exists>post. s = k @ post)"
  by (induction s k rule: startsWith.induct) auto

lemma includes_str_iff: "includes_str s k \<longleftrightarrow> (\<exists>pre post. s = pre @ k @ post)"
proof (induction s)
  case Nil
  then show ?case by auto
next
  case (Cons c s)
  show ?case
  proof
    assume "includes_str (c # s) k"
    then consider "startsWith (c # s) k" | "includes_str s k" by auto
    then show "\<exists>pre post. c # s = pre @ k @ post"
    proof cases
      case 1
      then obtain post where "c # s = k @ post" using startsWith_iff by blast
      then have "c # s = [] @ k @ post" by simp
      then show ?thesis by blast
    next
      case 2
      with Cons.IH obtain pre post where "s = pre @ k @ post" by blast
      then have "c # s = (c # pre) @ k @ post" by simp
      then show ?thesis by blast
    qed
  next
    assume "\<exists>pre post. c # s = pre @ k @ post"
    then obtain pre post where eq: "c # s = pre @ k @ post" by blast
    show "includes_str (c # s) k"
    proof (cases pre)
      case Nil
      with eq have "startsWith (c # s) k" using startsWith_iff by auto
      then show ?thesis by simp
    next
      case (Cons p pre')
      with eq have "s = pre' @ k @ post" by simp
      with Cons.IH have "includes_str s k" by blast
      then show ?thesis by simp
    qed
  qed
qed

lemma lower_alphabet: "map toLowerChar ''ABCDEFGHIJKLMNOPQRSTUVWXYZ'' = ''abcdefghijklmnopqrstuvwxyz''"
  by code_simp

lemma upper_in_alphabet:
  assumes "isUpper c"
  shows "c \<in> set ''ABCDEFGHIJKLMNOPQRSTUVWXYZ''"
proof -
  let ?v = "of_char c :: nat"
  have "?v = 65 \<or> ?v = 66 \<or> ?v = 67 \<or> ?v = 68 \<or> ?v = 69 \<or> ?v = 70 \<or> ?v = 71 \<or> ?v = 72 \<or> ?v = 73
      \<or> ?v = 74 \<or> ?v = 75 \<or> ?v = 76 \<or> ?v = 77 \<or> ?v = 78 \<or> ?v = 79 \<or> ?v = 80 \<or> ?v = 81 \<or> ?v = 82
      \<or> ?v = 83 \<or> ?v = 84 \<or> ?v = 85 \<or> ?v = 86 \<or> ?v = 87 \<or> ?v = 88 \<or> ?v = 89 \<or> ?v = 90"
    using assms unfolding isUpper_def by presburger
  then have "?v \<in> of_char ` set ''ABCDEFGHIJKLMNOPQRSTUVWXYZ''"
    by simp
  then obtain u where "u \<in> set ''ABCDEFGHIJKLMNOPQRSTUVWXYZ''" and "?v = of_char u"
    by blast
  then show ?thesis by simp
qed

lemma alphabet_upper: "u \<in> set ''ABCDEFGHIJKLMNOPQRSTUVWXYZ'' \<Longrightarrow> isUpper u"
  by (auto simp: isUpper_def)

lemma letterPairs_iff:
  "(c, d) \<in> set letterPairs \<longleftrightarrow> isUpper c \<and> d = toLowerChar c"
proof
  assume "(c, d) \<in> set letterPairs"
  then have "(c, d) \<in> set (zip ''ABCDEFGHIJKLMNOPQRSTUVWXYZ'' ''abcdefghijklmnopqrstuvwxyz'')"
    by (simp only: letterPairs_def)
  then obtain i where i: "i < length ''ABCDEFGHIJKLMNOPQRSTUVWXYZ''"
      "''ABCDEFGHIJKLMNOPQRSTUVWXYZ'' ! i = c" "''abcdefghijklmnopqrstuvwxyz'' ! i = d"
    unfolding in_set_zip by (auto simp only: fst_conv snd_conv)
  then have "c \<in> set ''ABCDEFGHIJKLMNOPQRSTUVWXYZ''"
    by (metis nth_mem)
  then have "isUpper c" by (rule alphabet_upper)
  moreover have "map toLowerChar ''ABCDEFGHIJKLMNOPQRSTUVWXYZ'' ! i = toLowerChar c"
    using i(1,2) by (simp only: nth_map)
  then have "d = toLowerChar c"
    using i(3) by (simp only: lower_alphabet)
  ultimately show "isUpper c \<and> d = toLowerChar c" by simp
next
  assume a: "isUpper c \<and> d = toLowerChar c"
  then have "c \<in> set ''ABCDEFGHIJKLMNOPQRSTUVWXYZ''" using upper_in_alphabet by blast
  then obtain i where i: "i < length ''ABCDEFGHIJKLMNOPQRSTUVWXYZ''" "c = ''ABCDEFGHIJKLMNOPQRSTUVWXYZ'' ! i"
    by (metis in_set_conv_nth)
  then have "toLowerChar c = map toLowerChar ''ABCDEFGHIJKLMNOPQRSTUVWXYZ'' ! i"
    by (simp only: nth_map)
  then have "d = ''abcdefghijklmnopqrstuvwxyz'' ! i" using a by (simp only: lower_alphabet)
  with i show "(c, d) \<in> set letterPairs"
    unfolding letterPairs_def in_set_zip by (intro exI [of _ i]) simp
qed

lemma toLowerChar_caseless:
  assumes "\<not> isUpper d"
  shows "toLowerChar c = d \<longleftrightarrow> caseless c d"
proof -
  have keep: "toLowerChar x = x" if "\<not> isUpper x" for x
    using that by (auto simp: toLowerChar_def isUpper_def Let_def)
  show ?thesis
  proof (cases "isUpper c")
    case True
    then have "c \<noteq> d" using assms by auto
    with True assms show ?thesis by (auto simp: caseless_def letterPairs_iff)
  next
    case False
    with assms show ?thesis by (auto simp: caseless_def letterPairs_iff keep)
  qed
qed

lemma toLowerCase_caseless:
  assumes "\<forall>d \<in> set keyword. \<not> isUpper d"
  shows "toLowerCase mid = keyword \<longleftrightarrow> list_all2 caseless mid keyword"
proof -
  have "toLowerCase mid = keyword \<longleftrightarrow> list_all2 (\<lambda>c d. toLowerChar c = d) mid keyword"
    by (simp add: toLowerCase_def list_all2_conv_all_nth list_eq_iff_nth_eq)
  also have "\<dots> \<longleftrightarrow> list_all2 caseless mid keyword"
    using assms by (auto simp: list_all2_conv_all_nth toLowerChar_caseless)
  finally show ?thesis .
qed

lemma keywords_lower: "\<forall>keyword \<in> set unsubscribeKeywords. \<forall>d \<in> set keyword. \<not> isUpper d"
  by (simp add: unsubscribeKeywords_def isUpper_def)

lemma includes_lower_iff:
  assumes "keyword \<in> set unsubscribeKeywords"
  shows "includes_str (toLowerCase link) keyword \<longleftrightarrow> mentions link keyword"
proof -
  have low: "\<forall>d \<in> set keyword. \<not> isUpper d" using assms keywords_lower by blast
  have "(\<exists>pre post. toLowerCase link = pre @ keyword @ post) \<longleftrightarrow>
      (\<exists>pre mid post. link = pre @ mid @ post \<and> toLowerCase mid = keyword)"
    unfolding toLowerCase_def
  proof
    assume "\<exists>pre post. map toLowerChar link = pre @ keyword @ post"
    then obtain pre post where "map toLowerChar link = pre @ (keyword @ post)" by auto
    then obtain a r where l1: "link = a @ r" and "map toLowerChar r = keyword @ post"
      by (metis map_eq_append_conv)
    then obtain b c where "r = b @ c" and "map toLowerChar b = keyword"
      by (metis map_eq_append_conv)
    with l1 show "\<exists>pre mid post. link = pre @ mid @ post \<and> map toLowerChar mid = keyword" by blast
  next
    assume "\<exists>pre mid post. link = pre @ mid @ post \<and> map toLowerChar mid = keyword"
    then obtain pre mid post where "link = pre @ mid @ post" "map toLowerChar mid = keyword" by blast
    then have "map toLowerChar link = map toLowerChar pre @ keyword @ map toLowerChar post" by simp
    then show "\<exists>pre post. map toLowerChar link = pre @ keyword @ post" by blast
  qed
  then show ?thesis
    by (simp add: includes_str_iff mentions_def toLowerCase_caseless [OF low])
qed

text \<open>
  Claim C6. \<open>filterUnsubscribeLinks\<close> reduces the three sample links to the one that
  mentions no keyword; it does the same whatever the case of the letters; and in general it
  keeps, in their order, exactly the links no stretch of which equals one of the five keywords
  up to the case of its letters.
\<close>

theorem filterUnsubscribeLinks_spec:
  "filterUnsubscribeLinks [''https://x/unsubscribe'', ''https://x/view'', ''https://x/opt-out''] = [''https://x/view'']
   \<and> filterUnsubscribeLinks [''https://x/UnSubscribe'', ''https://x/View'', ''HTTPS://X/OPT-OUT'',
        ''https://x/Manage-Preferences?u=1'', ''https://x/OptOut'', ''https://x/REMOVE/me''] = [''https://x/View'']
   \<and> filterUnsubscribeLinks links =
       filter (\<lambda>link. \<not> (\<exists>keyword \<in> {''unsubscribe'', ''opt-out'', ''optout'', ''remove'', ''manage-preferences''}.
                  mentions link keyword)) links"
proof (intro conjI)
  show "filterUnsubscribeLinks [''https://x/unsubscribe'', ''https://x/view'', ''https://x/opt-out''] = [''https://x/view'']"
    by code_simp
  show "filterUnsubscribeLinks [''https://x/UnSubscribe'', ''https://x/View'', ''HTTPS://X/OPT-OUT'',
        ''https://x/Manage-Preferences?u=1'', ''https://x/OptOut'', ''https://x/REMOVE/me''] = [''https://x/View'']"
    by code_simp
  have kw: "set unsubscribeKeywords = {''unsubscribe'', ''opt-out'', ''optout'', ''remove'', ''manage-preferences''}"
    by (simp add: unsubscribeKeywords_def)
  have "filterUnsubscribeLinks links =
       filter (\<lambda>link. \<not> (\<exists>keyword \<in> set unsubscribeKeywords. mentions link keyword)) links"
    by (simp add: filterUnsubscribeLinks_def Let_def list_ex_iff includes_lower_iff cong: filter_cong)
  then show "filterUnsubscribeLinks links =
       filter (\<lambda>link. \<not> (\<exists>keyword \<in> {''unsubscribe'', ''opt-out'', ''optout'', ''remove'', ''manage-preferences''}.
                  mentions link keyword)) links"
    by (simp only: kw)
qed

section \<open>Scheduler, Campaign Expander, Engagement Executor: verification\<close>

lemma enqueueCampaigns_all:
  assumes "\<forall>i < length cs. send_error s (sends w + i) = None"
  shows "enqueueCampaigns s cs w =
     (Inr (), w\<lparr>campaign_queue := campaign_queue w @ map campaign_row_id cs,
                sends := sends w + length cs\<rparr>)"
  using assms
proof (induction cs arbitrary: w)
  case Nil
  then show ?case by (simp add: ret_def)
next
  case (Cons c cs)
  let ?w1 = "w\<lparr>sends := sends w + 1, campaign_queue := campaign_queue w @ [campaign_row_id c]\<rparr>"
  from Cons.prems have first: "send_error s (sends w) = None" by force
  have rest: "\<forall>i < length cs. send_error s (sends ?w1 + i) = None"
  proof (intro allI impI)
    fix i assume "i < length cs"
    then have "Suc i < length (c # cs)" by simp
    with Cons.prems have "send_error s (sends w + Suc i) = None" by blast
    then show "send_error s (sends ?w1 + i) = None" by simp
  qed
  have "enqueueCampaigns s (c # cs) w = enqueueCampaigns s cs ?w1"
    using first by (simp add: bind_io_def campaignSend_def Let_def)
  also have "\<dots> = (Inr (), ?w1\<lparr>campaign_queue := campaign_queue ?w1 @ map campaign_row_id cs,
                sends := sends ?w1 + length cs\<rparr>)"
    by (rule Cons.IH [OF rest])
  finally show ?case by simp
qed

lemma enqueueCampaigns_first_failure:
  assumes "i < length cs" and "\<forall>j < i. send_error s (sends w + j) = None"
    and "send_error s (sends w + i) = Some e"
  shows "enqueueCampaigns s cs w =
     (Inl e, w\<lparr>campaign_queue := campaign_queue w @ map campaign_row_id (take i cs),
               sends := sends w + i + 1\<rparr>)"
  using assms
proof (induction cs arbitrary: w i)
  case Nil
  then show ?case by simp
next
  case (Cons c cs)
  show ?case
  proof (cases i)
    case 0
    with Cons.prems show ?thesis
      by (simp add: bind_io_def campaignSend_def Let_def)
  next
    case (Suc i')
    let ?w1 = "w\<lparr>sends := sends w + 1, campaign_queue := campaign_queue w @ [campaign_row_id c]\<rparr>"
    from Cons.prems Suc have first: "send_error s (sends w) = None" by force
    have i': "i' < length cs" using Cons.prems Suc by simp
    have before: "\<forall>j < i'. send_error s (sends ?w1 + j) = None"
    proof (intro allI impI)
      fix j assume "j < i'"
      then have "Suc j < i" using Suc by simp
      with Cons.prems have "send_error s (sends w + Suc j) = None" by blast
      then show "send_error s (sends ?w1 + j) = None" by simp
    qed
    have at: "send_error s (sends ?w1 + i') = Some e" using Cons.prems Suc by simp
    have "enqueueCampaigns s (c # cs) w = enqueueCampaigns s cs ?w1"
      using first by (simp add: bind_io_def campaignSend_def Let_def)
    also have "\<dots> = (Inl e, ?w1\<lparr>campaign_queue := campaign_queue ?w1 @ map campaign_row_id (take i' cs),
               sends := sends ?w1 + i' + 1\<rparr>)"
      by (rule Cons.IH [OF i' before at])
    finally show ?thesis using Suc by simp
  qed
qed

lemma scheduled_listed:
  assumes "store_error s (statements w) = None"
  shows "scheduled s w = enqueueCampaigns s
     (filter (\<lambda>c. campaign_status c = CampaignActive) (campaigns w)) (w\<lparr>statements := statements w + 1\<rparr>)"
  using assms by (simp add: scheduled_def bind_io_def activeCampaigns_def statement_def Let_def)

text \<open>
  Claim C4, as amended. When the listing query succeeds and the transport accepts every
  publication, the run completes having published the identities of the active campaigns, one
  message each, in listing order. When a publication fails, the run fails with that error
  having published exactly the campaigns listed before the failing one, and attempts no later
  one. When the listing query fails, the run fails having published nothing. In each case the
  world the run leaves is given whole: nothing but the Campaign Channel (and the counts of
  statements and sends) changes.
\<close>

theorem scheduled_publishes_prefix:
  "(store_error s (statements w) = None
      \<and> (\<forall>i < length (activeIds w). send_error s (sends w + i) = None) \<longrightarrow>
      scheduled s w =
        (Inr (), w\<lparr>campaign_queue := campaign_queue w @ activeIds w,
                   statements := statements w + 1,
                   sends := sends w + length (activeIds w)\<rparr>))
   \<and> (\<forall>i e. store_error s (statements w) = None \<and> i < length (activeIds w)
        \<and> (\<forall>j < i. send_error s (sends w + j) = None) \<and> send_error s (sends w + i) = Some e \<longrightarrow>
      scheduled s w =
        (Inl e, w\<lparr>campaign_queue := campaign_queue w @ take i (activeIds w),
                  statements := statements w + 1,
                  sends := sends w + i + 1\<rparr>))
   \<and> (\<forall>e. store_error s (statements w) = Some e \<longrightarrow>
      scheduled s w = (Inl e, w\<lparr>statements := statements w + 1\<rparr>))"
proof (intro conjI allI impI)
  let ?active = "filter (\<lambda>c. campaign_status c = CampaignActive) (campaigns w)"
  let ?w1 = "w\<lparr>statements := statements w + 1\<rparr>"
  { assume a: "store_error s (statements w) = None
      \<and> (\<forall>i < length (activeIds w). send_error s (sends w + i) = None)"
    then have "\<forall>i < length ?active. send_error s (sends ?w1 + i) = None"
      by (simp add: activeIds_def)
    from enqueueCampaigns_all [OF this] a
    show "scheduled s w =
        (Inr (), w\<lparr>campaign_queue := campaign_queue w @ activeIds w,
                   statements := statements w + 1,
                   sends := sends w + length (activeIds w)\<rparr>)"
      by (simp add: scheduled_listed activeIds_def) }
  { fix i e
    assume a: "store_error s (statements w) = None \<and> i < length (activeIds w)
        \<and> (\<forall>j < i. send_error s (sends w + j) = None) \<and> send_error s (sends w + i) = Some e"
    then have "i < length ?active" "\<forall>j < i. send_error s (sends ?w1 + j) = None"
      "send_error s (sends ?w1 + i) = Some e"
      by (simp_all add: activeIds_def)
    from enqueueCampaigns_first_failure [OF this] a
    show "scheduled s w =
        (Inl e, w\<lparr>campaign_queue := campaign_queue w @ take i (activeIds w),
                  statements := statements w + 1,
                  sends := sends w + i + 1\<rparr>)"
      by (simp add: scheduled_listed activeIds_def take_map) }
  { fix e
    assume "store_error s (statements w) = Some e"
    then show "scheduled s w = (Inl e, w\<lparr>statements := statements w + 1\<rparr>)"
      by (simp add: scheduled_def bind_io_def activeCampaigns_def statement_def Let_def) }
qed

lemmas io_defs = ret_def throw_def bind_io_def catch_io_def statement_def issue_def mathRandom_def
  signal_def campaignSend_def engagementSend_def Let_def

text \<open>
  Publication is not all-or-none: with active campaigns 1, 3 and 4 and a transport that
  rejects the second publication, the run fails and leaves campaign 1 published alone.
\<close>

theorem scheduled_partial_publication:
  "scheduled (quiet\<lparr>send_error := (\<lambda>n. if n = 1 then Some ''queue unavailable'' else None)\<rparr>) world0
     = (Inl ''queue unavailable'', world0\<lparr>campaign_queue := [1], statements := 1, sends := 2\<rparr>)
   \<and> map campaign_row_id (filter (\<lambda>c. campaign_status c = CampaignActive) (campaigns world0)) = [1, 3, 4]"
  by (simp add: scheduled_def activeCampaigns_def io_defs quiet_def world0_def campaign_of_def)

theorem scheduled_publishes_prefix_witness:
  "activeIds world0 = [1, 3, 4]
   \<and> scheduled quiet world0 = (Inr (), world0\<lparr>campaign_queue := [1, 3, 4], statements := 1, sends := 3\<rparr>)
   \<and> scheduled (quiet\<lparr>send_error := (\<lambda>n. if n = 1 then Some ''queue unavailable'' else None)\<rparr>) world0
       = (Inl ''queue unavailable'', world0\<lparr>campaign_queue := [1], statements := 1, sends := 2\<rparr>)
   \<and> scheduled (quiet\<lparr>store_error := (\<lambda>n. Some ''D1_ERROR'')\<rparr>) world0
       = (Inl ''D1_ERROR'', world0\<lparr>statements := 1\<rparr>)"
proof -
  let ?flaky = "quiet\<lparr>send_error := (\<lambda>n. if n = 1 then Some ''queue unavailable'' else None)\<rparr>"
  let ?down = "quiet\<lparr>store_error := (\<lambda>n. Some ''D1_ERROR'')\<rparr>"
  have ids: "activeIds world0 = [1, 3, 4]"
    by (simp add: activeIds_def world0_def campaign_of_def)
  have w0: "statements world0 = 0" "sends world0 = 0" "campaign_queue world0 = []"
    by (simp_all add: world0_def)
  have a: "scheduled quiet world0 =
      (Inr (), world0\<lparr>campaign_queue := [1, 3, 4], statements := 1, sends := 3\<rparr>)"
    using scheduled_publishes_prefix [of quiet world0, THEN conjunct1]
    by (simp add: ids w0 quiet_def)
  have b: "scheduled ?flaky world0 =
      (Inl ''queue unavailable'', world0\<lparr>campaign_queue := [1], statements := 1, sends := 2\<rparr>)"
    using scheduled_publishes_prefix [of ?flaky world0, THEN conjunct2, THEN conjunct1,
        rule_format, of 1 "''queue unavailable''"]
    by (simp add: ids w0 quiet_def)
  have c: "scheduled ?down world0 = (Inl ''D1_ERROR'', world0\<lparr>statements := 1\<rparr>)"
    using scheduled_publishes_prefix [of ?down world0, THEN conjunct2, THEN conjunct2,
        rule_format, of "''D1_ERROR''"]
    by (simp add: w0 quiet_def)
  from ids a b c show ?thesis by simp
qed

lemma determineActions_openOnly:
  assumes "\<forall>n. 0 \<le> math_random s n \<and> math_random s n < 1"
  shows "determineActions s openOnly w = (Inr [Open], w\<lparr>draws := draws w + 4\<rparr>)"
proof -
  have "\<not> math_random s n < 0" "math_random s n < 1" for n
    using assms by (auto simp: not_less)
  then show ?thesis
    by (simp add: determineActions_def openOnly_def bind_io_def mathRandom_def ret_def)
qed

lemma enqueueActions_open:
  "enqueueActions s cid a sender [Open] w =
     (case send_error s (sends w) of
        Some e \<Rightarrow> (Inl e, w\<lparr>draws := draws w + 1, sends := sends w + 1\<rparr>)
      | None \<Rightarrow> (Inr (), w\<lparr>draws := draws w + 1, sends := sends w + 1,
           engagement_queue := engagement_queue w @
             [(openTask cid sender a, nat \<lfloor>math_random s (draws w) * 300\<rfloor>)]\<rparr>))"
  by (simp add: bind_io_def mathRandom_def engagementSend_def ret_def Let_def openTask_def
      split: option.splits)

lemma expandAccounts_openOnly:
  assumes "\<forall>n. 0 \<le> math_random s n \<and> math_random s n < 1"
  shows "\<exists>r w' k. expandAccounts s openOnly cid sender ids w = (r, w') \<and> k \<le> length ids
      \<and> map fst (engagement_queue w') = map fst (engagement_queue w) @ map (openTask cid sender) (take k ids)
      \<and> settled w' = settled w
      \<and> ((\<forall>n. send_error s n = None) \<longrightarrow> k = length ids \<and> r = Inr ())"
proof (induction ids arbitrary: w)
  case Nil
  then show ?case by (simp add: ret_def)
next
  case (Cons a ids)
  let ?w1 = "w\<lparr>draws := draws w + 4\<rparr>"
  have da: "determineActions s openOnly w = (Inr [Open], ?w1)"
    by (rule determineActions_openOnly [OF assms])
  show ?case
  proof (cases "send_error s (sends w)")
    case (Some e)
    then have "expandAccounts s openOnly cid sender (a # ids) w =
        (Inl e, ?w1\<lparr>draws := draws ?w1 + 1, sends := sends ?w1 + 1\<rparr>)"
      by (simp add: bind_io_def da enqueueActions_open del: enqueueActions.simps)
    with Some show ?thesis by (intro exI [of _ "Inl e"] exI [of _ "_ :: world"] exI [of _ 0]) auto
  next
    case None
    let ?w2 = "?w1\<lparr>draws := draws ?w1 + 1, sends := sends ?w1 + 1,
           engagement_queue := engagement_queue ?w1 @
             [(openTask cid sender a, nat \<lfloor>math_random s (draws ?w1) * 300\<rfloor>)]\<rparr>"
    from None have step: "expandAccounts s openOnly cid sender (a # ids) w =
        expandAccounts s openOnly cid sender ids ?w2"
      by (simp add: bind_io_def da enqueueActions_open del: enqueueActions.simps)
    from Cons.IH [of ?w2] obtain r w' k where
      "expandAccounts s openOnly cid sender ids ?w2 = (r, w')" "k \<le> length ids"
      "map fst (engagement_queue w') = map fst (engagement_queue ?w2) @ map (openTask cid sender) (take k ids)"
      "settled w' = settled ?w2"
      "(\<forall>n. send_error s n = None) \<longrightarrow> k = length ids \<and> r = Inr ()"
      by blast
    with step show ?thesis
      by (intro exI [of _ r] exI [of _ w'] exI [of _ "Suc k"]) auto
  qed
qed

text \<open>
  Claim C5. With \<open>open_rate = 1\<close> and the three other rates 0, whatever values in \<open>[0, 1)\<close>
  \<^verbatim>\<open>Math.random()\<close> draws, the Campaign Expander publishes for the reserved accounts, in
  order, one \<open>Open\<close> task each and no task of any other kind; when the transport accepts
  every publication, each reserved account has its task and the message is acknowledged. (A
  rejected publication ends the run at that account, and the message is retried.)
\<close>

theorem expander_open_only:
  assumes "\<forall>n. 0 \<le> math_random s n \<and> math_random s n < 1"
    and "store_error s (statements w) = None"
    and "find (\<lambda>c. campaign_row_id c = cid \<and> campaign_status c = CampaignActive) (campaigns w) = Some campaign"
    and "engagement_settings campaign =
           Inr \<lparr>open_rate = 1, click_rate = 0, reply_rate = 0, move_to_inbox_rate = 0\<rparr>"
    and "select_accounts s (pool_size campaign) cid = Inr (AccountIds accountIds)"
  shows "\<exists>w' k. processCampaign s (mid, cid) w = (Inr (), w') \<and> k \<le> length accountIds
      \<and> map fst (engagement_queue w') = map fst (engagement_queue w) @
           map (\<lambda>a. \<lparr>campaignId = cid, gmailAccountId = a, senderEmail = sender_email campaign,
                     actionType = Open\<rparr>) (take k accountIds)
      \<and> ((\<forall>n. send_error s n = None) \<longrightarrow> k = length accountIds \<and> settled w' = settled w @ [(mid, Ack)])"
proof -
  let ?w1 = "w\<lparr>statements := statements w + 1\<rparr>"
  let ?w2 = "?w1\<lparr>requests := requests ?w1 @ [SelectAccounts (pool_size campaign) cid]\<rparr>"
  let ?sender = "sender_email campaign"
  have task: "openTask cid ?sender = (\<lambda>a. \<lparr>campaignId = cid, gmailAccountId = a, senderEmail = ?sender,
                     actionType = Open\<rparr>)"
    by (rule ext) (simp add: openTask_def)
  have es: "engagement_settings campaign = Inr openOnly"
    using assms(4) by (simp add: openOnly_def)
  show ?thesis
  proof (cases "accountIds = []")
    case True
    then have "processCampaign s (mid, cid) w = (Inr (), ?w2\<lparr>settled := settled ?w2 @ [(mid, Ack)]\<rparr>)"
      using assms(2,3,5) es
      by (simp add: processCampaign_def expandCampaign_def findCampaign_def io_defs)
    with True show ?thesis by (intro exI [of _ "_ :: world"] exI [of _ 0]) auto
  next
    case False
    from expandAccounts_openOnly [OF assms(1), of cid ?sender accountIds ?w2]
    obtain r w3 k where run: "expandAccounts s openOnly cid ?sender accountIds ?w2 = (r, w3)"
      and k: "k \<le> length accountIds"
      and q: "map fst (engagement_queue w3) = map fst (engagement_queue ?w2) @
                map (openTask cid ?sender) (take k accountIds)"
      and st: "settled w3 = settled ?w2"
      and ok: "(\<forall>n. send_error s n = None) \<longrightarrow> k = length accountIds \<and> r = Inr ()"
      by blast
    show ?thesis
    proof (cases r)
      case (Inl e)
      with run False have "processCampaign s (mid, cid) w = (Inr (), w3\<lparr>settled := settled w3 @ [(mid, Retry)]\<rparr>)"
        using assms(2,3,5) es
        by (simp add: processCampaign_def expandCampaign_def findCampaign_def io_defs)
      with k q ok Inl show ?thesis
        by (intro exI [of _ "_ :: world"] exI [of _ k]) (auto simp: task)
    next
      case (Inr u)
      with run False have "processCampaign s (mid, cid) w = (Inr (), w3\<lparr>settled := settled w3 @ [(mid, Ack)]\<rparr>)"
        using assms(2,3,5) es
        by (simp add: processCampaign_def expandCampaign_def findCampaign_def io_defs)
      with k q ok st show ?thesis
        by (intro exI [of _ "_ :: world"] exI [of _ k]) (auto simp: task)
    qed
  qed
qed




















lemma logEngagement_accepted:
  assumes "insertAccepted s w cid gid"
  shows "logEngagement s cid gid a st errorMessage subject w =
     (Inr (), w\<lparr>statements := statements w + 1,
                engagement_logs := engagement_logs w @
                  [\<lparr>campaign_id = cid, gmail_account_id = gid, action_type = a,
                    target_email_subject = subject, status = st, error_message = errorMessage\<rparr>]\<rparr>)"
  using assms by (simp add: logEngagement_def insertAccepted_def referencesHold_def Let_def)




text \<open>
  Claim C9. Whenever the account is found, its credentials are obtained and
  \<open>performEngagementAction\<close> returns without throwing, the executor sets the account's
  \<open>last_used_at\<close> and acknowledges the message (the update is a store statement, supposed
  accepted). Nothing in this depends on the row that was logged: the failure paths
  \<open>perform_no_messages\<close>, \<open>click_no_html\<close>, \<open>click_no_safe_links\<close> and
  \<open>click_link_failed\<close> return without throwing like a success.
\<close>

theorem last_used_bumped_on_return:
  assumes "findAccount s (gmailAccountId b) w = (Inr (Some acc), w1)"
    and "obtainCredentials s acc (gmailAccountId b) w1 = (Inr credentials, w2)"
    and "performEngagementAction s (access_token credentials) (campaignId b) (gmailAccountId b)
           (senderEmail b) (actionType b) w2 = (Inr (), w3)"
    and "store_error s (statements w3) = None"
  shows "processEngagement s (mid, b) w =
      (Inr (), w3\<lparr>statements := statements w3 + 1,
                  gmail_accounts := map (\<lambda>r. if account_id r = gmailAccountId b
                      then r\<lparr>last_used_at := Some (clock s)\<rparr> else r) (gmail_accounts w3),
                  settled := settled w3 @ [(mid, Ack)]\<rparr>)"
  using assms
  by (simp add: processEngagement_def attempt_def catch_io_def bind_io_def updateLastUsed_def
      statement_def signal_def Let_def)

lemma perform_no_messages:
  assumes "listMessages s tok sender = Inr []"
    and "insertAccepted s (w\<lparr>requests := requests w @ [ListMessages tok sender 5]\<rparr>) cid gid"
  shows "performEngagementAction s tok cid gid sender a w =
     (Inr (), w\<lparr>requests := requests w @ [ListMessages tok sender 5],
                statements := statements w + 1,
                engagement_logs := engagement_logs w @
                  [\<lparr>campaign_id = cid, gmail_account_id = gid, action_type = a,
                    target_email_subject = None, status = Failed,
                    error_message = Some ''No messages found''\<rparr>]\<rparr>)"
  using logEngagement_accepted [OF assms(2), of a Failed "Some ''No messages found''" None] assms(1)
  by (simp add: performEngagementAction_def bind_io_def issue_def)

lemma perform_click:
  assumes "listMessages s tok sender = Inr messages" and "messages \<noteq> []"
    and "pick (math_random s (draws w)) messages = Some messageId"
    and "getMessage s tok messageId = Inr fullMessage"
  shows "performEngagementAction s tok cid gid sender Click w =
     clickLink s cid gid (subjectOf fullMessage) fullMessage
       (w\<lparr>draws := draws w + 1,
          requests := requests w @ [ListMessages tok sender 5, GetMessage tok messageId]\<rparr>)"
  using assms
  by (simp add: performEngagementAction_def bind_io_def issue_def mathRandom_def Let_def)

lemma click_no_html:
  assumes "getHtmlContent fullMessage = None \<or> getHtmlContent fullMessage = Some []"
    and "insertAccepted s w cid gid"
  shows "clickLink s cid gid subject fullMessage w =
     (Inr (), w\<lparr>statements := statements w + 1,
                engagement_logs := engagement_logs w @ [clickFailure cid gid subject ''No HTML content'']\<rparr>)"
  using assms logEngagement_accepted [OF assms(2), of Click Failed "Some ''No HTML content''" "Some subject"]
  by (auto simp: clickLink_def clickFailure_def)

lemma click_no_safe_links:
  assumes "getHtmlContent fullMessage = Some html" and "html \<noteq> []"
    and "filterUnsubscribeLinks (extractLinks s html) = []"
    and "insertAccepted s w cid gid"
  shows "clickLink s cid gid subject fullMessage w =
     (Inr (), w\<lparr>statements := statements w + 1,
                engagement_logs := engagement_logs w @ [clickFailure cid gid subject ''No safe links found'']\<rparr>)"
  using assms logEngagement_accepted [OF assms(4), of Click Failed "Some ''No safe links found''" "Some subject"]
  by (simp add: clickLink_def Let_def clickFailure_def)

lemma click_link_failed:
  assumes "getHtmlContent fullMessage = Some html" and "html \<noteq> []"
    and "filterUnsubscribeLinks (extractLinks s html) = safeLinks" and "safeLinks \<noteq> []"
    and "pick (math_random s (draws w)) safeLinks = Some randomLink"
    and "fetch_head s randomLink = Inl fetchError"
    and "insertAccepted s (w\<lparr>draws := draws w + 1, requests := requests w @ [Head randomLink]\<rparr>) cid gid"
  shows "clickLink s cid gid subject fullMessage w =
     (Inr (), w\<lparr>draws := draws w + 1,
                requests := requests w @ [Head randomLink],
                statements := statements w + 1,
                engagement_logs := engagement_logs w @ [clickFailure cid gid subject ''Link click failed'']\<rparr>)"
  using assms logEngagement_accepted [OF assms(7), of Click Failed "Some ''Link click failed''" "Some subject"]
  by (simp add: clickLink_def Let_def clickFailure_def bind_io_def catch_io_def mathRandom_def issue_def)

lemmas sample_defs = quiet_def world0_def campaign_of_def account7_def account9_def poolWorld_def
  taskFor_def plainMessage_def htmlMessage_def inbox_def reserving_def outage_def

lemmas worker_defs = scheduled_def activeCampaigns_def findCampaign_def determineActions_def
  expandCampaign_def processCampaign_def logEngagement_def referencesHold_def getHtmlContent_def subjectOf_def
  generateReply_def clickLink_def performEngagementAction_def findAccount_def updateCredentials_def
  updateLastUsed_def obtainCredentials_def attempt_def processEngagement_def pick_def
  filterUnsubscribeLinks_def toLowerCase_def toLowerChar_def unsubscribeKeywords_def

theorem expander_open_only_witness:
  "(\<forall>n. 0 \<le> math_random reserving n \<and> math_random reserving n < 1)
   \<and> fst (processCampaign reserving (0, 1) world0) = Inr ()
   \<and> map fst (engagement_queue (snd (processCampaign reserving (0, 1) world0))) =
       [\<lparr>campaignId = 1, gmailAccountId = 11, senderEmail = ''sender@example.com'', actionType = Open\<rparr>,
        \<lparr>campaignId = 1, gmailAccountId = 12, senderEmail = ''sender@example.com'', actionType = Open\<rparr>]
   \<and> settled (snd (processCampaign reserving (0, 1) world0)) = [(0, Ack)]"
proof -
  have rnd: "\<forall>n. 0 \<le> math_random reserving n \<and> math_random reserving n < 1"
    by (simp add: sample_defs)
  have store: "store_error reserving (statements world0) = None" by (simp add: sample_defs)
  have found: "find (\<lambda>c. campaign_row_id c = 1 \<and> campaign_status c = CampaignActive) (campaigns world0)
      = Some (campaign_of 1 CampaignActive)"
    by (simp add: sample_defs)
  have es: "engagement_settings (campaign_of 1 CampaignActive) =
      Inr \<lparr>open_rate = 1, click_rate = 0, reply_rate = 0, move_to_inbox_rate = 0\<rparr>"
    by (simp add: sample_defs)
  have sel: "select_accounts reserving (pool_size (campaign_of 1 CampaignActive)) 1 = Inr (AccountIds [11, 12])"
    by (simp add: sample_defs)
  have sends: "\<forall>n. send_error reserving n = None" by (simp add: sample_defs)
  from expander_open_only [OF rnd store found es sel, of 0] sends
  obtain w' k where "processCampaign reserving (0, 1) world0 = (Inr (), w')"
    and "k = length [11, 12 :: int]"
    and "map fst (engagement_queue w') = map fst (engagement_queue world0) @
           map (\<lambda>a. \<lparr>campaignId = 1, gmailAccountId = a,
                     senderEmail = sender_email (campaign_of 1 CampaignActive),
                     actionType = Open\<rparr>) (take k [11, 12])"
    and "settled w' = settled world0 @ [(0, Ack)]"
    by auto
  with rnd show ?thesis by (simp add: sample_defs)
qed




lemma found7: "findAccount s 7 poolWorld = (Inr (Some account7), poolWorld\<lparr>statements := 1\<rparr>)"
  if "store_error s 0 = None"
  using that by (simp add: findAccount_def statement_def Let_def sample_defs)

lemma creds7:
  assumes "decryptCredentials s = decryptCredentials quiet" and "clock s = clock quiet"
  shows "obtainCredentials s account7 7 (poolWorld\<lparr>statements := 1\<rparr>) =
     (Inr \<lparr>access_token = ''token'', refresh_token = ''refresh'', expiry_date = 1800000000000\<rparr>,
      poolWorld\<lparr>statements := 1, requests := [Decrypt ''k7'']\<rparr>)"
  using assms by (simp add: obtainCredentials_def io_defs sample_defs)

theorem last_used_bumped_on_return_witness:
  "processEngagement quiet (0, taskFor 7 Click) poolWorld =
     (Inr (), bumped (poolWorld\<lparr>statements := 3,
        requests := [Decrypt ''k7'', ListMessages ''token'' ''sender@example.com'' 5],
        engagement_logs := [failedRow (taskFor 7 Click) ''No messages found'']\<rparr>))
   \<and> processEngagement (inbox plainMessage) (0, taskFor 7 Click) poolWorld =
     (Inr (), bumped (poolWorld\<lparr>statements := 3, draws := 1,
        requests := [Decrypt ''k7'', ListMessages ''token'' ''sender@example.com'' 5, GetMessage ''token'' ''m1''],
        engagement_logs := [clickFailure 1 7 ''Hello'' ''No HTML content'']\<rparr>))
   \<and> processEngagement ((inbox htmlMessage)\<lparr>extractLinks := (\<lambda>h. [''https://x/unsubscribe''])\<rparr>)
        (0, taskFor 7 Click) poolWorld =
     (Inr (), bumped (poolWorld\<lparr>statements := 3, draws := 1,
        requests := [Decrypt ''k7'', ListMessages ''token'' ''sender@example.com'' 5, GetMessage ''token'' ''m1''],
        engagement_logs := [clickFailure 1 7 ''Hello'' ''No safe links found'']\<rparr>))
   \<and> processEngagement ((inbox htmlMessage)\<lparr>extractLinks := (\<lambda>h. [''https://x/view'']),
          fetch_head := (\<lambda>l. Inl ''network error'')\<rparr>)
        (0, taskFor 7 Click) poolWorld =
     (Inr (), bumped (poolWorld\<lparr>statements := 3, draws := 2,
        requests := [Decrypt ''k7'', ListMessages ''token'' ''sender@example.com'' 5, GetMessage ''token'' ''m1'',
          Head ''https://x/view''],
        engagement_logs := [clickFailure 1 7 ''Hello'' ''Link click failed'']\<rparr>))"
proof -
  let ?b = "taskFor 7 Click"
  let ?w1 = "poolWorld\<lparr>statements := 1\<rparr>"
  let ?w2 = "poolWorld\<lparr>statements := 1, requests := [Decrypt ''k7'']\<rparr>"
  let ?cr = "\<lparr>access_token = ''token'', refresh_token = ''refresh'', expiry_date = 1800000000000\<rparr>"
  have gid: "gmailAccountId ?b = 7" by (simp add: taskFor_def)
  { fix s w3
    assume st: "store_error s = (\<lambda>n. None)" and dc: "decryptCredentials s = decryptCredentials quiet"
      and ck: "clock s = clock quiet"
      and p: "performEngagementAction s ''token'' 1 7 ''sender@example.com'' Click ?w2 = (Inr (), w3)"
    have f: "findAccount s (gmailAccountId ?b) poolWorld = (Inr (Some account7), ?w1)"
      using found7 [of s] st by (simp add: gid)
    have c: "obtainCredentials s account7 (gmailAccountId ?b) ?w1 = (Inr ?cr, ?w2)"
      using creds7 [OF dc ck] by (simp add: gid)
    have p': "performEngagementAction s (access_token ?cr) (campaignId ?b) (gmailAccountId ?b)
           (senderEmail ?b) (actionType ?b) ?w2 = (Inr (), w3)"
      using p by (simp add: taskFor_def)
    have "store_error s (statements w3) = None" using st by simp
    from last_used_bumped_on_return [OF f c p' this, of 0]
    have "processEngagement s (0, ?b) poolWorld =
      (Inr (), w3\<lparr>statements := statements w3 + 1,
                  gmail_accounts := map (\<lambda>r. if account_id r = 7
                      then r\<lparr>last_used_at := Some (clock quiet)\<rparr> else r) (gmail_accounts w3),
                  settled := settled w3 @ [(0, Ack)]\<rparr>)"
      by (simp add: gid ck)
  } note run = this
  have p1: "performEngagementAction quiet ''token'' 1 7 ''sender@example.com'' Click ?w2 =
      (Inr (), poolWorld\<lparr>statements := 2,
        requests := [Decrypt ''k7'', ListMessages ''token'' ''sender@example.com'' 5],
        engagement_logs := [failedRow ?b ''No messages found'']\<rparr>)"
    by (simp add: worker_defs io_defs sample_defs failedRow_def)
  have p2: "performEngagementAction (inbox plainMessage) ''token'' 1 7 ''sender@example.com'' Click ?w2 =
      (Inr (), poolWorld\<lparr>statements := 2, draws := 1,
        requests := [Decrypt ''k7'', ListMessages ''token'' ''sender@example.com'' 5, GetMessage ''token'' ''m1''],
        engagement_logs := [clickFailure 1 7 ''Hello'' ''No HTML content'']\<rparr>)"
    by (simp add: worker_defs io_defs sample_defs clickFailure_def)
  have p3: "performEngagementAction ((inbox htmlMessage)\<lparr>extractLinks := (\<lambda>h. [''https://x/unsubscribe''])\<rparr>)
        ''token'' 1 7 ''sender@example.com'' Click ?w2 =
      (Inr (), poolWorld\<lparr>statements := 2, draws := 1,
        requests := [Decrypt ''k7'', ListMessages ''token'' ''sender@example.com'' 5, GetMessage ''token'' ''m1''],
        engagement_logs := [clickFailure 1 7 ''Hello'' ''No safe links found'']\<rparr>)"
    by (simp add: worker_defs io_defs sample_defs clickFailure_def)
  have p4: "performEngagementAction ((inbox htmlMessage)\<lparr>extractLinks := (\<lambda>h. [''https://x/view'']),
          fetch_head := (\<lambda>l. Inl ''network error'')\<rparr>)
        ''token'' 1 7 ''sender@example.com'' Click ?w2 =
      (Inr (), poolWorld\<lparr>statements := 2, draws := 2,
        requests := [Decrypt ''k7'', ListMessages ''token'' ''sender@example.com'' 5, GetMessage ''token'' ''m1'',
          Head ''https://x/view''],
        engagement_logs := [clickFailure 1 7 ''Hello'' ''Link click failed'']\<rparr>)"
    by (simp add: worker_defs io_defs sample_defs clickFailure_def)
  have r1: "processEngagement quiet (0, ?b) poolWorld =
     (Inr (), bumped (poolWorld\<lparr>statements := 3,
        requests := [Decrypt ''k7'', ListMessages ''token'' ''sender@example.com'' 5],
        engagement_logs := [failedRow ?b ''No messages found'']\<rparr>))"
    using run [OF _ _ _ p1] by (simp add: sample_defs bumped_def)
  have r2: "processEngagement (inbox plainMessage) (0, ?b) poolWorld =
     (Inr (), bumped (poolWorld\<lparr>statements := 3, draws := 1,
        requests := [Decrypt ''k7'', ListMessages ''token'' ''sender@example.com'' 5, GetMessage ''token'' ''m1''],
        engagement_logs := [clickFailure 1 7 ''Hello'' ''No HTML content'']\<rparr>))"
    using run [OF _ _ _ p2] by (simp add: sample_defs bumped_def)
  have r3: "processEngagement ((inbox htmlMessage)\<lparr>extractLinks := (\<lambda>h. [''https://x/unsubscribe''])\<rparr>)
        (0, ?b) poolWorld =
     (Inr (), bumped (poolWorld\<lparr>statements := 3, draws := 1,
        requests := [Decrypt ''k7'', ListMessages ''token'' ''sender@example.com'' 5, GetMessage ''token'' ''m1''],
        engagement_logs := [clickFailure 1 7 ''Hello'' ''No safe links found'']\<rparr>))"
    using run [OF _ _ _ p3] by (simp add: sample_defs bumped_def)
  have r4: "processEngagement ((inbox htmlMessage)\<lparr>extractLinks := (\<lambda>h. [''https://x/view'']),
          fetch_head := (\<lambda>l. Inl ''network error'')\<rparr>)
        (0, ?b) poolWorld =
     (Inr (), bumped (poolWorld\<lparr>statements := 3, draws := 2,
        requests := [Decrypt ''k7'', ListMessages ''token'' ''sender@example.com'' 5, GetMessage ''token'' ''m1'',
          Head ''https://x/view''],
        engagement_logs := [clickFailure 1 7 ''Hello'' ''Link click failed'']\<rparr>))"
    using run [OF _ _ _ p4] by (simp add: sample_defs bumped_def)
  from r1 r2 r3 r4 show ?thesis by blast
qed

end
